theory Spec2Isabelle
  imports Complex_Main
begin

section \<open>Numeric values\<close>

text \<open>
  Symbols are complex numbers and are modelled by \<^typ>\<open>complex\<close>; arithmetic on finite
  values is exact (rounding, overflow and underflow of IEEE doubles are not modelled).
  Real-valued NumPy results that can leave the finite numbers (a logarithm of zero, a
  division by zero, the mean of an empty array) are modelled by \<open>npfloat\<close>, the reals
  extended by the two infinities and NaN. Zero carries no sign.
\<close>

datatype npfloat = Fin real | PInf | NInf | NaN

datatype error = ValueError | IndexError | OverflowError | ZeroDivisionError | UnboundLocalError
  | ShapeError | NonFinite

text \<open>Sequencing of fallible steps: the first error ends the computation.\<close>

definition bind :: "error + 'a \<Rightarrow> ('a \<Rightarrow> error + 'b) \<Rightarrow> error + 'b" where
  "bind m f = (case m of Inl e \<Rightarrow> Inl e | Inr x \<Rightarrow> f x)"

section \<open>Library functions used by the metrics\<close>

text \<open>\<open>int(np.log2(M))\<close> for a positive integer: the floor of the binary logarithm.\<close>

fun ilog2 :: "nat \<Rightarrow> nat" where
  "ilog2 n = (if n < 2 then 0 else Suc (ilog2 (n div 2)))"

declare ilog2.simps [simp del]

text \<open>
  \<open>np.log2(0)\<close> is \<open>-inf\<close> and \<open>np.log2\<close> of a negative number is NaN; Python's \<open>int\<close>
  raises OverflowError on the first and ValueError on the second.
\<close>

definition int_log2 :: "int \<Rightarrow> error + nat" where
  "int_log2 M = (if M = 0 then Inl OverflowError
                 else if M < 0 then Inl ValueError
                 else Inr (ilog2 (nat M)))"

text \<open>
  \<open>np.argmin\<close>: the index of the first occurrence of the minimum; ValueError on an empty
  array. The scan keeps the best index and value seen so far and replaces them only on a
  strictly smaller value.
\<close>

fun argmin_scan :: "real list \<Rightarrow> nat \<Rightarrow> nat \<Rightarrow> real \<Rightarrow> nat" where
  "argmin_scan [] i best bestv = best"
| "argmin_scan (v # vs) i best bestv =
     (if v < bestv then argmin_scan vs (Suc i) i v else argmin_scan vs (Suc i) best bestv)"

definition argmin :: "real list \<Rightarrow> error + nat" where
  "argmin xs = (case xs of [] \<Rightarrow> Inl ValueError | v # vs \<Rightarrow> Inr (argmin_scan vs 1 0 v))"

text \<open>
  Slice assignment \<open>a[start : start + n] = vals\<close> for a slice that lies inside \<open>a\<close>:
  \<open>vals\<close> must have \<open>n\<close> entries, or one entry, which NumPy broadcasts; any other
  length is a ValueError.
\<close>

definition set_slice :: "real list \<Rightarrow> nat \<Rightarrow> nat \<Rightarrow> real list \<Rightarrow> error + real list" where
  "set_slice a start n vals =
     (if length vals = n then Inr (take start a @ vals @ drop (start + n) a)
      else if length vals = 1 then Inr (take start a @ replicate n (hd vals) @ drop (start + n) a)
      else Inl ValueError)"

section \<open>hardDecision\<close>

text \<open>
  The bit map is a two-dimensional integer array, modelled as the list of its rows; the
  decided bits are a float array initialised with zeros. The loop body of
  \<open>for i in range(len(rxSymb))\<close> is one step of \<open>hardDecision_loop\<close>. Reading row
  \<open>indSymb\<close> of a bit map with fewer rows is an IndexError. The function is compiled
  by Numba; the errors are those of the interpreted function (the compiled one checks
  neither the index nor the conversion of \<open>log2(0)\<close>), and no statement below depends
  on which error is reported.
\<close>

fun hardDecision_loop ::
  "nat list \<Rightarrow> complex list \<Rightarrow> complex list \<Rightarrow> int list list \<Rightarrow> nat \<Rightarrow> real list
     \<Rightarrow> error + real list" where
  "hardDecision_loop [] rxSymb constSymb bitMap b decBits = Inr decBits"
| "hardDecision_loop (i # is) rxSymb constSymb bitMap b decBits =
     bind (argmin (map (\<lambda>c. cmod (rxSymb ! i - c)) constSymb)) (\<lambda>indSymb.
       if indSymb < length bitMap then
         bind (set_slice decBits (i * b) b (map real_of_int (bitMap ! indSymb))) (\<lambda>decBits'.
           hardDecision_loop is rxSymb constSymb bitMap b decBits')
       else Inl IndexError)"

definition hardDecision :: "complex list \<Rightarrow> complex list \<Rightarrow> int list list \<Rightarrow> error + real list" where
  "hardDecision rxSymb constSymb bitMap =
     bind (int_log2 (int (length constSymb))) (\<lambda>b.
       hardDecision_loop [0..<length rxSymb] rxSymb constSymb bitMap b
         (replicate (length rxSymb * b) 0))"

section \<open>Arithmetic on extended values\<close>

text \<open>
  The IEEE rules for the special values, as NumPy applies them silently (with a warning,
  never an exception). Earlier equations win where patterns overlap.
\<close>

fun np_neg :: "npfloat \<Rightarrow> npfloat" where
  "np_neg (Fin a) = Fin (- a)"
| "np_neg PInf = NInf"
| "np_neg NInf = PInf"
| "np_neg NaN = NaN"

fun np_add :: "npfloat \<Rightarrow> npfloat \<Rightarrow> npfloat" where
  "np_add NaN y = NaN"
| "np_add x NaN = NaN"
| "np_add (Fin a) (Fin b) = Fin (a + b)"
| "np_add PInf NInf = NaN"
| "np_add NInf PInf = NaN"
| "np_add PInf y = PInf"
| "np_add x PInf = PInf"
| "np_add NInf y = NInf"
| "np_add x NInf = NInf"

definition np_sub :: "npfloat \<Rightarrow> npfloat \<Rightarrow> npfloat" where
  "np_sub x y = np_add x (np_neg y)"

fun np_mul :: "npfloat \<Rightarrow> npfloat \<Rightarrow> npfloat" where
  "np_mul NaN y = NaN"
| "np_mul x NaN = NaN"
| "np_mul (Fin a) (Fin b) = Fin (a * b)"
| "np_mul (Fin a) PInf = (if a = 0 then NaN else if 0 < a then PInf else NInf)"
| "np_mul (Fin a) NInf = (if a = 0 then NaN else if 0 < a then NInf else PInf)"
| "np_mul PInf (Fin b) = (if b = 0 then NaN else if 0 < b then PInf else NInf)"
| "np_mul NInf (Fin b) = (if b = 0 then NaN else if 0 < b then NInf else PInf)"
| "np_mul PInf PInf = PInf"
| "np_mul NInf NInf = PInf"
| "np_mul PInf NInf = NInf"
| "np_mul NInf PInf = NInf"

fun np_div :: "npfloat \<Rightarrow> npfloat \<Rightarrow> npfloat" where
  "np_div NaN y = NaN"
| "np_div x NaN = NaN"
| "np_div (Fin a) (Fin b) =
     (if b = 0 then (if a = 0 then NaN else if 0 < a then PInf else NInf) else Fin (a / b))"
| "np_div (Fin a) y = Fin 0"
| "np_div PInf (Fin b) = (if 0 \<le> b then PInf else NInf)"
| "np_div NInf (Fin b) = (if 0 \<le> b then NInf else PInf)"
| "np_div x y = NaN"

fun np_exp :: "npfloat \<Rightarrow> npfloat" where
  "np_exp (Fin a) = Fin (exp a)"
| "np_exp PInf = PInf"
| "np_exp NInf = Fin 0"
| "np_exp NaN = NaN"

text \<open>Logarithm to base \<open>B\<close>: \<open>-inf\<close> at zero, NaN below zero.\<close>

fun np_logb :: "real \<Rightarrow> npfloat \<Rightarrow> npfloat" where
  "np_logb B (Fin a) = (if a = 0 then NInf else if a < 0 then NaN else Fin (log B a))"
| "np_logb B PInf = PInf"
| "np_logb B NInf = NaN"
| "np_logb B NaN = NaN"

definition np_log :: "npfloat \<Rightarrow> npfloat" where
  "np_log x = np_logb (exp 1) x"

definition np_log2 :: "npfloat \<Rightarrow> npfloat" where
  "np_log2 x = np_logb 2 x"

definition np_log10 :: "npfloat \<Rightarrow> npfloat" where
  "np_log10 x = np_logb 10 x"

definition np_sum :: "npfloat list \<Rightarrow> npfloat" where
  "np_sum xs = foldl np_add (Fin 0) xs"

text \<open>The mean of an empty array is \<open>0 / 0\<close>, that is NaN.\<close>

definition np_mean :: "npfloat list \<Rightarrow> npfloat" where
  "np_mean xs = np_div (np_sum xs) (Fin (real (length xs)))"


text \<open>
  \<open>np.var\<close> of a complex array: the mean of the squared magnitudes of the deviations
  from the mean; NaN on an empty array.
\<close>

definition cmean :: "complex list \<Rightarrow> complex" where
  "cmean xs = sum_list xs / of_nat (length xs)"

definition np_var :: "complex list \<Rightarrow> npfloat" where
  "np_var xs = np_mean (map (\<lambda>v. Fin ((cmod (v - cmean xs))\<^sup>2)) xs)"

text \<open>\<open>a.reshape(-1, b)\<close> of a flat array: rows of \<open>b\<close> consecutive entries.\<close>

definition reshape_rows :: "nat \<Rightarrow> 'a list \<Rightarrow> error + 'a list list" where
  "reshape_rows b xs =
     (if b = 0 \<or> length xs mod b \<noteq> 0 then Inl ValueError
      else Inr (map (\<lambda>g. take b (drop (g * b) xs)) [0..<length xs div b]))"

text \<open>The strided slice \<open>xs[n::b]\<close> for a positive step \<open>b\<close>.\<close>

definition strided :: "nat \<Rightarrow> nat \<Rightarrow> 'a list \<Rightarrow> 'a list" where
  "strided n b xs = map (\<lambda>j. xs ! (n + j * b)) [0..<(length xs - n + b - 1) div b]"

section \<open>Arrays of symbols\<close>

text \<open>
  The estimators accept a one-dimensional sequence or a two-dimensional array (the list
  of its rows, all of one length). Canonicalisation reshapes a sequence of length \<open>N\<close>
  to \<open>N \<times> 1\<close> and transposes a two-dimensional array that has more columns than rows.
  The canonical array is held as the list of its columns, so that \<open>rx[:, k]\<close> is the
  \<open>k\<close>-th entry and \<open>shape[1]\<close> is the length of the list.
\<close>

datatype ndarray = Arr1 "complex list" | Arr2 "complex list list"

definition columns :: "complex list list \<Rightarrow> complex list list" where
  "columns rows = (case rows of [] \<Rightarrow> []
                   | r # _ \<Rightarrow> map (\<lambda>k. map (\<lambda>row. row ! k) rows) [0..<length r])"

fun as_columns :: "ndarray \<Rightarrow> complex list list" where
  "as_columns (Arr1 x) = [x]"
| "as_columns (Arr2 rows) =
     (if length rows < (case rows of [] \<Rightarrow> 0 | r # _ \<Rightarrow> length r) then rows
      else columns rows)"

section \<open>Signal conditioning\<close>

definition signal_power :: "complex list \<Rightarrow> npfloat" where
  "signal_power x = (if x = [] then NaN else Fin (Re (cmean (map (\<lambda>v. v * cnj v) x))))"

text \<open>
  Modelled from the spec: \<open>pnorm\<close> (module \<open>optic.dsp\<close>) is not among the sources. It
  rescales a sequence to unit average power, dividing by the square root of the mean
  squared magnitude. A sequence of zero power would be divided by zero; the non-finite
  samples this gives are outside the model and reported as \<open>NonFinite\<close>.
\<close>

definition pnorm :: "complex list \<Rightarrow> error + complex list" where
  "pnorm x =
     (if x = [] then Inr []
      else let p = sum_list (map (\<lambda>v. (cmod v)\<^sup>2) x) / real (length x)
           in if p = 0 then Inl NonFinite
              else Inr (map (\<lambda>v. v / complex_of_real (sqrt p)) x))"

text \<open>
  \<open>rot = np.mean(tx / rx); rx = rot * rx\<close>. A zero sample of \<open>rx\<close> makes the ratio,
  hence \<open>rot\<close> and every corrected sample, non-finite.
\<close>

definition phase_correct :: "complex list \<Rightarrow> complex list \<Rightarrow> error + complex list" where
  "phase_correct tx rx =
     (if rx = [] then Inr []
      else if 0 \<in> set rx then Inl NonFinite
      else Inr (map (\<lambda>v. cmean (map2 (\<lambda>t r. t / r) tx rx) * v) rx))"

text \<open>\<open>np.mean(np.abs(constSymb) ** 2)\<close>.\<close>

definition mean_energy :: "complex list \<Rightarrow> npfloat" where
  "mean_energy constSymb = np_mean (map (\<lambda>c. Fin ((cmod c)\<^sup>2)) constSymb)"

text \<open>
  Multiplication or division of a complex array by a real scalar that may be NaN or
  infinite; on a non-empty array such a scalar gives non-finite samples.
\<close>

definition scale_by :: "npfloat \<Rightarrow> complex list \<Rightarrow> error + complex list" where
  "scale_by s x = (case s of Fin a \<Rightarrow> Inr (map (\<lambda>v. complex_of_real a * v) x)
                   | _ \<Rightarrow> if x = [] then Inr [] else Inl NonFinite)"

definition np_sqrt :: "npfloat \<Rightarrow> npfloat" where
  "np_sqrt s = (case s of Fin a \<Rightarrow> if a < 0 then NaN else Fin (sqrt a)
                | PInf \<Rightarrow> PInf | _ \<Rightarrow> NaN)"

definition divide_by :: "npfloat \<Rightarrow> complex list \<Rightarrow> error + complex list" where
  "divide_by s x = (case s of Fin a \<Rightarrow> if a = 0 \<and> x \<noteq> [] then Inl NonFinite
                                       else Inr (map (\<lambda>v. v / complex_of_real a) x)
                   | NaN \<Rightarrow> if x = [] then Inr [] else Inl NonFinite
                   | _ \<Rightarrow> Inr (map (\<lambda>v. 0) x))"

section \<open>fastBERcalc\<close>

text \<open>
  The constellation and the flat bit sequence are the results of \<open>GrayMapping(M, constType)\<close>
  and \<open>demodulateGray(constSymb, M, constType)\<close>, which are not among the sources and
  are taken as parameters. The model covers \<open>rx\<close> and \<open>tx\<close> of equal canonical
  shape (the invariant of the data model); NumPy's broadcasting of unequal shapes is not
  modelled and such inputs are reported as \<open>ShapeError\<close>. The in-place update of the
  caller's arrays is not returned.
\<close>

text \<open>The pre-processing loop: normalisation, phase correction and the SNR estimate.\<close>

fun ber_prep_loop ::
  "nat list \<Rightarrow> complex list list \<Rightarrow> complex list list \<Rightarrow> npfloat list
     \<Rightarrow> error + (complex list list \<times> complex list list \<times> npfloat list)" where
  "ber_prep_loop [] rx tx SNR = Inr (rx, tx, SNR)"
| "ber_prep_loop (k # ks) rx tx SNR =
     bind (pnorm (rx ! k)) (\<lambda>v. let rx = rx[k := v] in
     bind (pnorm (tx ! k)) (\<lambda>w. let tx = tx[k := w] in
     bind (phase_correct (tx ! k) (rx ! k)) (\<lambda>u. let rx = rx[k := u] in
       ber_prep_loop ks rx tx
         (SNR[k := np_mul (Fin 10) (np_log10 (np_div (signal_power (tx ! k))
                      (signal_power (map2 (\<lambda>r t. r - t) (rx ! k) (tx ! k)))))]))))"






section \<open>calcLLR\<close>

text \<open>
  \<open>bitMap[:, indBit]\<close> is an IndexError when the bit map has fewer columns; indexing
  \<open>prob\<close> by a Boolean mask of another length is an IndexError as well.
\<close>

definition column :: "int list list \<Rightarrow> nat \<Rightarrow> error + int list" where
  "column a n = (if \<forall>row \<in> set a. n < length row then Inr (map (\<lambda>row. row ! n) a)
                 else Inl IndexError)"

definition mask_select :: "'a list \<Rightarrow> bool list \<Rightarrow> error + 'a list" where
  "mask_select xs sel =
     (if length sel = length xs then Inr (map fst (filter snd (zip xs sel)))
      else Inl IndexError)"

fun calcLLR_bits ::
  "nat list \<Rightarrow> nat \<Rightarrow> nat \<Rightarrow> npfloat list \<Rightarrow> int list list \<Rightarrow> npfloat list
     \<Rightarrow> error + npfloat list" where
  "calcLLR_bits [] i b prob bitMap LLRs = Inr LLRs"
| "calcLLR_bits (indBit # rest) i b prob bitMap LLRs =
     bind (column bitMap indBit) (\<lambda>col.
     bind (mask_select prob (map (\<lambda>v. v = 0) col)) (\<lambda>s0.
     bind (mask_select prob (map (\<lambda>v. v = 1) col)) (\<lambda>s1.
       let p0 = np_sum s0; p1 = np_sum s1 in
       calcLLR_bits rest i b prob bitMap
         (LLRs[i * b + indBit := np_sub (np_log p0) (np_log p1)]))))"

fun calcLLR_loop ::
  "nat list \<Rightarrow> complex list \<Rightarrow> npfloat \<Rightarrow> complex list \<Rightarrow> int list list \<Rightarrow> nat
     \<Rightarrow> npfloat list \<Rightarrow> error + npfloat list" where
  "calcLLR_loop [] rxSymb sigma2 constSymb bitMap b LLRs = Inr LLRs"
| "calcLLR_loop (i # is) rxSymb sigma2 constSymb bitMap b LLRs =
     (let prob = map (\<lambda>c. np_exp (np_div (Fin (- ((cmod (rxSymb ! i - c))\<^sup>2))) sigma2))
                   constSymb
      in bind (calcLLR_bits [0..<b] i b prob bitMap LLRs) (\<lambda>LLRs'.
           calcLLR_loop is rxSymb sigma2 constSymb bitMap b LLRs'))"

definition calcLLR ::
  "complex list \<Rightarrow> npfloat \<Rightarrow> complex list \<Rightarrow> int list list \<Rightarrow> error + npfloat list" where
  "calcLLR rxSymb sigma2 constSymb bitMap =
     bind (int_log2 (int (length constSymb))) (\<lambda>b.
       calcLLR_loop [0..<length rxSymb] rxSymb sigma2 constSymb bitMap b
         (replicate (length rxSymb * b) (Fin 0)))"

section \<open>monteCarloGMI\<close>

text \<open>\<open>np.var(rx - tx, axis=0)\<close>: one variance per column.\<close>

definition var_axis0 :: "complex list list \<Rightarrow> complex list list \<Rightarrow> npfloat list" where
  "var_axis0 rx tx = map2 (\<lambda>r t. np_var (map2 (\<lambda>a b. a - b) r t)) rx tx"

fun gmi_norm_loop ::
  "nat list \<Rightarrow> complex list list \<Rightarrow> complex list list
     \<Rightarrow> error + (complex list list \<times> complex list list)" where
  "gmi_norm_loop [] rx tx = Inr (rx, tx)"
| "gmi_norm_loop (k # ks) rx tx =
     bind (pnorm (rx ! k)) (\<lambda>v. let rx = rx[k := v] in
     bind (pnorm (tx ! k)) (\<lambda>w. let tx = tx[k := w] in
     bind (phase_correct (tx ! k) (rx ! k)) (\<lambda>u. let rx = rx[k := u] in
       gmi_norm_loop ks rx tx)))"

text \<open>
  The clipping step: \<open>LLRs[LLRs == np.inf] = 500\<close>, then \<open>LLRs[LLRs == -np.inf] = -500\<close>.
  NaN compares unequal to everything.
\<close>

definition clipLLR :: "npfloat list \<Rightarrow> npfloat list" where
  "clipLLR LLRs = map (\<lambda>v. if v = NInf then Fin (- 500) else v)
                    (map (\<lambda>v. if v = PInf then Fin 500 else v) LLRs)"

text \<open>The soft demodulation of one mode followed by the clipping.\<close>

definition gmi_LLRs ::
  "complex list \<Rightarrow> npfloat \<Rightarrow> complex list \<Rightarrow> npfloat \<Rightarrow> int list list \<Rightarrow> error + npfloat list" where
  "gmi_LLRs rxk sigma2 constSymb Es bitMap =
     bind (divide_by (np_sqrt Es) constSymb) (\<lambda>constNorm.
     bind (calcLLR rxk sigma2 constNorm bitMap) (\<lambda>LLRs.
       Inr (clipLLR LLRs)))"

fun gmi_bit_loop ::
  "nat list \<Rightarrow> nat \<Rightarrow> real list \<Rightarrow> npfloat list \<Rightarrow> npfloat list \<Rightarrow> npfloat list" where
  "gmi_bit_loop [] b btx LLRs MIperBitPosition = MIperBitPosition"
| "gmi_bit_loop (n # ns) b btx LLRs MIperBitPosition =
     gmi_bit_loop ns b btx LLRs
       (MIperBitPosition[n := np_sub (Fin 1) (np_mean
          (map2 (\<lambda>bt l. np_log2 (np_add (Fin 1) (np_exp (np_mul (Fin (2 * bt - 1)) l))))
             (strided n b btx) (strided n b LLRs)))])"

text \<open>
  The body of the loop over the modes for mode \<open>k\<close>, up to the array
  \<open>MIperBitPosition\<close> that the iteration builds.
\<close>

definition gmi_mode ::
  "complex list list \<Rightarrow> complex list list \<Rightarrow> npfloat list \<Rightarrow> npfloat \<Rightarrow> complex list
     \<Rightarrow> int list list \<Rightarrow> int \<Rightarrow> nat \<Rightarrow> error + npfloat list" where
  "gmi_mode rx tx noiseVar Es constSymb bitMap M k =
     (let sigma2 = noiseVar ! k in
      bind (scale_by (np_sqrt Es) (tx ! k)) (\<lambda>stx.
      bind (hardDecision stx constSymb bitMap) (\<lambda>btx.
      bind (gmi_LLRs (rx ! k) sigma2 constSymb Es bitMap) (\<lambda>LLRs.
      bind (int_log2 M) (\<lambda>b.
        Inr (gmi_bit_loop [0..<b] b btx LLRs (replicate b (Fin 0))))))))"

text \<open>
  The loop over the modes stores \<open>GMI[k]\<close>. \<open>MIperBitPosition\<close> is a local variable
  that each iteration binds anew; before the first iteration it is unbound (\<open>None\<close>).
\<close>

fun gmi_loop ::
  "nat list \<Rightarrow> complex list list \<Rightarrow> complex list list \<Rightarrow> npfloat list \<Rightarrow> npfloat
     \<Rightarrow> complex list \<Rightarrow> int list list \<Rightarrow> int \<Rightarrow> npfloat list \<Rightarrow> npfloat list option
     \<Rightarrow> error + (npfloat list \<times> npfloat list option)" where
  "gmi_loop [] rx tx noiseVar Es constSymb bitMap M GMI MIperBitPosition =
     Inr (GMI, MIperBitPosition)"
| "gmi_loop (k # ks) rx tx noiseVar Es constSymb bitMap M GMI MIperBitPosition =
     bind (gmi_mode rx tx noiseVar Es constSymb bitMap M k) (\<lambda>MI.
       gmi_loop ks rx tx noiseVar Es constSymb bitMap M (GMI[k := np_sum MI]) (Some MI))"

definition monteCarloGMI ::
  "ndarray \<Rightarrow> ndarray \<Rightarrow> int \<Rightarrow> complex list \<Rightarrow> int list
     \<Rightarrow> error + (npfloat list \<times> npfloat list)" where
  "monteCarloGMI rx tx M constSymb bits =
     (let Es = mean_energy constSymb;
          rx = as_columns rx;
          tx = as_columns tx
      in if map length rx \<noteq> map length tx then Inl ShapeError
         else
           let nModes = length tx;
               GMI = replicate nModes (Fin 0);
               noiseVar = var_axis0 rx tx
           in bind (int_log2 M) (\<lambda>b.
              bind (reshape_rows b bits) (\<lambda>bitMap.
              bind (gmi_norm_loop [0..<nModes] rx tx) (\<lambda>(rx, tx).
              bind (gmi_loop [0..<nModes] rx tx noiseVar Es constSymb bitMap M GMI None)
                (\<lambda>(GMI, MIperBitPosition).
                   case MIperBitPosition of None \<Rightarrow> Inl UnboundLocalError
                   | Some MI \<Rightarrow> Inr (GMI, MI))))))"

section \<open>monteCarloMI: default pmf and constellation scaling\<close>




section \<open>Auxiliary notions for the statements\<close>

text \<open>The index that \<open>np.argmin(np.abs(r - constSymb))\<close> yields on a non-empty constellation.\<close>

definition nearest_index :: "complex list \<Rightarrow> complex \<Rightarrow> nat" where
  "nearest_index constSymb r =
     (case map (\<lambda>c. cmod (r - c)) constSymb of [] \<Rightarrow> 0 | v # vs \<Rightarrow> argmin_scan vs 1 0 v)"

text \<open>
  \<open>j\<close> is the first index at which \<open>ds\<close> takes its minimum: no entry is smaller and
  every earlier entry is strictly larger.
\<close>

definition first_min :: "real list \<Rightarrow> nat \<Rightarrow> bool" where
  "first_min ds j \<longleftrightarrow>
     j < length ds \<and> (\<forall>k < length ds. ds ! j \<le> ds ! k) \<and> (\<forall>k < j. ds ! j < ds ! k)"

text \<open>An \<open>M \<times> b\<close> bit map.\<close>

definition bitmap_shape :: "int list list \<Rightarrow> nat \<Rightarrow> nat \<Rightarrow> bool" where
  "bitmap_shape bitMap M b \<longleftrightarrow> length bitMap = M \<and> (\<forall>row \<in> set bitMap. length row = b)"

text \<open>
  The likelihood vector \<open>prob\<close> that \<open>calcLLR\<close> computes for one received symbol, and the
  LLR it stores for bit position \<open>n\<close> from that vector.
\<close>

definition likelihoods :: "complex \<Rightarrow> npfloat \<Rightarrow> complex list \<Rightarrow> npfloat list" where
  "likelihoods r sigma2 constSymb =
     map (\<lambda>c. np_exp (np_div (Fin (- ((cmod (r - c))\<^sup>2))) sigma2)) constSymb"

definition llr_of :: "npfloat list \<Rightarrow> int list list \<Rightarrow> nat \<Rightarrow> npfloat" where
  "llr_of prob bitMap n =
     np_sub (np_log (np_sum (map fst (filter snd (zip prob (map (\<lambda>row. row ! n = 0) bitMap))))))
            (np_log (np_sum (map fst (filter snd (zip prob (map (\<lambda>row. row ! n = 1) bitMap))))))"




text \<open>
  The state of \<open>monteCarloGMI\<close> when its loop over the modes starts: the conditioned
  \<open>rx\<close> and \<open>tx\<close>, the array \<open>noiseVar\<close> and the bit map.
\<close>

definition gmi_setup ::
  "ndarray \<Rightarrow> ndarray \<Rightarrow> int \<Rightarrow> complex list \<Rightarrow> int list
     \<Rightarrow> error + (complex list list \<times> complex list list \<times> npfloat list \<times> int list list)" where
  "gmi_setup rx tx M constSymb bits =
     (let rx = as_columns rx; tx = as_columns tx
      in if map length rx \<noteq> map length tx then Inl ShapeError
         else bind (int_log2 M) (\<lambda>b.
              bind (reshape_rows b bits) (\<lambda>bitMap.
              bind (gmi_norm_loop [0..<length tx] rx tx) (\<lambda>(rx', tx').
                Inr (rx', tx', var_axis0 rx tx, bitMap)))))"

text \<open>The clipped LLR sequence that the loop of \<open>monteCarloGMI\<close> computes for mode \<open>k\<close>.\<close>

definition gmi_mode_LLRs ::
  "ndarray \<Rightarrow> ndarray \<Rightarrow> int \<Rightarrow> complex list \<Rightarrow> int list \<Rightarrow> nat \<Rightarrow> error + npfloat list" where
  "gmi_mode_LLRs rx tx M constSymb bits k =
     bind (gmi_setup rx tx M constSymb bits) (\<lambda>(rx', tx', noiseVar, bitMap).
       gmi_LLRs (rx' ! k) (noiseVar ! k) constSymb (mean_energy constSymb) bitMap)"

text \<open>An LLR value that is finite with absolute value at most 500.\<close>

definition within_clip :: "npfloat \<Rightarrow> bool" where
  "within_clip v = (case v of Fin x \<Rightarrow> \<bar>x\<bar> \<le> 500 | _ \<Rightarrow> False)"

text \<open>
  A pair of columns whose conditioning stays within the finite numbers: no received
  sample is zero, and the transmitted column is empty or has a non-zero sample.
\<close>

definition conditionable :: "complex list \<Rightarrow> complex list \<Rightarrow> bool" where
  "conditionable rxk txk \<longleftrightarrow> 0 \<notin> set rxk \<and> (txk = [] \<or> (\<exists>v \<in> set txk. v \<noteq> 0))"

text \<open>
  Well-formed arguments of the estimators: \<open>rx\<close> and \<open>tx\<close> of one canonical shape with
  conditionable columns, a constellation of \<open>M = 2 ^ b\<close> points, \<open>b \<ge> 1\<close>, not all zero,
  and \<open>M * b\<close> bits from the demodulator.
\<close>

definition well_formed ::
  "ndarray \<Rightarrow> ndarray \<Rightarrow> int \<Rightarrow> complex list \<Rightarrow> int list \<Rightarrow> nat \<Rightarrow> bool" where
  "well_formed rx tx M constSymb bits b \<longleftrightarrow>
     map length (as_columns rx) = map length (as_columns tx)
     \<and> list_all (\<lambda>k. conditionable (as_columns rx ! k) (as_columns tx ! k))
          [0..<length (as_columns tx)]
     \<and> M = 2 ^ b \<and> 0 < b \<and> length constSymb = 2 ^ b \<and> (\<exists>c \<in> set constSymb. c \<noteq> 0)
     \<and> length bits = 2 ^ b * b"

section \<open>Properties of the library functions\<close>

lemma bind_Inr [simp]: "bind (Inr x) f = f x"
  by (simp add: bind_def)

lemma bind_Inl [simp]: "bind (Inl e) f = Inl e"
  by (simp add: bind_def)

lemma bind_eq_Inr:
  "bind m f = Inr y \<longleftrightarrow> (\<exists>x. m = Inr x \<and> f x = Inr y)"
  by (cases m) simp_all

lemma upt_1: "[0..<1] = [0]"
  by (simp add: upt_rec)

lemma ilog2_power [simp]: "ilog2 (2 ^ b) = b"
proof (induction b)
  case 0
  show ?case by (simp add: ilog2.simps)
next
  case (Suc b)
  have "\<not> (2::nat) ^ Suc b < 2" by simp
  then show ?case using Suc by (subst ilog2.simps) simp
qed

lemma int_log2_int: "int_log2 (int n) = (if n = 0 then Inl OverflowError else Inr (ilog2 n))"
  by (simp add: int_log2_def)

lemma argmin_scan_first_min:
  assumes "i = length pre" and "best < length pre" and "pre ! best = bestv"
    and "\<forall>k < length pre. bestv \<le> pre ! k" and "\<forall>k < best. bestv < pre ! k"
  shows "first_min (pre @ vs) (argmin_scan vs i best bestv)"
  using assms
proof (induction vs arbitrary: pre i best bestv)
  case Nil
  then show ?case by (simp add: first_min_def)
next
  case (Cons v vs)
  show ?case
  proof (cases "v < bestv")
    case True
    have "first_min ((pre @ [v]) @ vs) (argmin_scan vs (Suc i) i v)"
    proof (rule Cons.IH)
      show "Suc i = length (pre @ [v])" using Cons.prems(1) by simp
      show "i < length (pre @ [v])" using Cons.prems(1) by simp
      show "(pre @ [v]) ! i = v" using Cons.prems(1) by simp
      show "\<forall>k<length (pre @ [v]). v \<le> (pre @ [v]) ! k"
        using Cons.prems(4) True by (auto simp: nth_append less_Suc_eq intro: less_imp_le order_trans)
      show "\<forall>k<i. v < (pre @ [v]) ! k"
        using Cons.prems(1,4) True by (auto simp: nth_append intro: less_le_trans)
    qed
    with True show ?thesis by simp
  next
    case False
    have "first_min ((pre @ [v]) @ vs) (argmin_scan vs (Suc i) best bestv)"
    proof (rule Cons.IH)
      show "Suc i = length (pre @ [v])" using Cons.prems(1) by simp
      show "best < length (pre @ [v])" using Cons.prems(2) by simp
      show "(pre @ [v]) ! best = bestv" using Cons.prems(2,3) by (simp add: nth_append)
      show "\<forall>k<length (pre @ [v]). bestv \<le> (pre @ [v]) ! k"
        using Cons.prems(4) False by (auto simp: nth_append less_Suc_eq)
      show "\<forall>k<best. bestv < (pre @ [v]) ! k"
        using Cons.prems(2,5) by (auto simp: nth_append)
    qed
    with False show ?thesis by simp
  qed
qed


lemma argmin_nearest:
  "constSymb \<noteq> [] \<Longrightarrow>
     argmin (map (\<lambda>c. cmod (r - c)) constSymb) = Inr (nearest_index constSymb r)"
  by (cases constSymb) (simp_all add: argmin_def nearest_index_def)

lemma nearest_first_min:
  assumes "constSymb \<noteq> []"
  shows "first_min (map (\<lambda>c. cmod (r - c)) constSymb) (nearest_index constSymb r)"
proof -
  obtain c cs where C: "constSymb = c # cs" using assms by (cases constSymb) auto
  have "first_min ([cmod (r - c)] @ map (\<lambda>c. cmod (r - c)) cs)
          (argmin_scan (map (\<lambda>c. cmod (r - c)) cs) 1 0 (cmod (r - c)))"
    by (rule argmin_scan_first_min) simp_all
  then show ?thesis by (simp add: C nearest_index_def)
qed

lemma nearest_index_less: "constSymb \<noteq> [] \<Longrightarrow> nearest_index constSymb r < length constSymb"
  using nearest_first_min [of constSymb r] by (simp add: first_min_def)

section \<open>hardDecision\<close>

lemma hardDecision_loop_append:
  "hardDecision_loop (xs @ ys) rxSymb constSymb bitMap b d =
     bind (hardDecision_loop xs rxSymb constSymb bitMap b d)
       (\<lambda>d'. hardDecision_loop ys rxSymb constSymb bitMap b d')"
proof (induction xs arbitrary: d)
  case Nil
  show ?case by simp
next
  case (Cons i xs)
  show ?case
    by (cases "argmin (map (\<lambda>c. cmod (rxSymb ! i - c)) constSymb)";
        cases "set_slice d (i * b) b (map real_of_int (bitMap ! (projr (argmin (map (\<lambda>c. cmod (rxSymb ! i - c)) constSymb)))))")
       (simp_all add: Cons.IH)
qed

text \<open>The bits decided for one symbol.\<close>

lemma hardDecision_loop_prefix:
  assumes C: "constSymb \<noteq> []" and rows: "length constSymb \<le> length bitMap"
    and width: "\<forall>j < length constSymb. length (bitMap ! j) = b"
    and n: "n \<le> length rxSymb"
  shows "hardDecision_loop [0..<n] rxSymb constSymb bitMap b (replicate (length rxSymb * b) 0) =
           Inr (concat (map (\<lambda>r. map real_of_int (bitMap ! nearest_index constSymb r)) (take n rxSymb))
                @ replicate ((length rxSymb - n) * b) 0)"
  using n
proof (induction n)
  case 0
  show ?case by simp
next
  case (Suc n)
  let ?f = "\<lambda>r. map real_of_int (bitMap ! nearest_index constSymb r)"
  let ?P = "concat (map ?f (take n rxSymb))"
  let ?N = "length rxSymb"
  have n: "n < ?N" using Suc.prems by simp
  have lenP: "length ?P = n * b"
  proof -
    have "\<forall>r. length (?f r) = b" using width nearest_index_less [OF C] by simp
    then have "length (concat (map ?f xs)) = length xs * b" for xs
      by (induction xs) simp_all
    then show ?thesis using n by simp
  qed
  have j: "nearest_index constSymb (rxSymb ! n) < length constSymb"
    by (rule nearest_index_less [OF C])
  have row: "length (?f (rxSymb ! n)) = b" using width j by simp
  have rep: "replicate ((?N - n) * b) (0::real) = replicate b 0 @ replicate ((?N - Suc n) * b) 0"
  proof -
    have "(?N - n) * b = b + (?N - Suc n) * b" using n
      by (metis Suc_diff_Suc mult_Suc)
    then show ?thesis by (simp add: replicate_add)
  qed
  have slice: "set_slice (?P @ replicate ((?N - n) * b) 0) (n * b) b (?f (rxSymb ! n)) =
                 Inr (?P @ ?f (rxSymb ! n) @ replicate ((?N - Suc n) * b) 0)"
    using row lenP by (simp add: set_slice_def rep)
  have step1: "hardDecision_loop [0..<Suc n] rxSymb constSymb bitMap b (replicate (?N * b) 0) =
          hardDecision_loop [n] rxSymb constSymb bitMap b (?P @ replicate ((?N - n) * b) 0)"
    using Suc.IH n by (simp add: hardDecision_loop_append)
  have step2: "hardDecision_loop [n] rxSymb constSymb bitMap b (?P @ replicate ((?N - n) * b) 0) =
          Inr (?P @ ?f (rxSymb ! n) @ replicate ((?N - Suc n) * b) 0)"
    using j rows slice by (simp add: argmin_nearest [OF C])
  have step3: "concat (map ?f (take (Suc n) rxSymb)) = ?P @ ?f (rxSymb ! n)"
    using n by (simp add: take_Suc_conv_app_nth)
  show ?case unfolding step1 step2 step3 by simp
qed

lemma hardDecision_eq:
  assumes "constSymb \<noteq> []" and "length constSymb \<le> length bitMap"
    and "\<forall>j < length constSymb. length (bitMap ! j) = ilog2 (length constSymb)"
  shows "hardDecision rxSymb constSymb bitMap =
           Inr (concat (map (\<lambda>r. map real_of_int (bitMap ! nearest_index constSymb r)) rxSymb))"
  using hardDecision_loop_prefix [OF assms, of "length rxSymb" rxSymb] assms(1)
  by (simp add: hardDecision_def int_log2_int)



section \<open>Means, error patterns and the round trip\<close>

lemma np_sum_Fin_aux: "foldl np_add (Fin a) (map Fin xs) = Fin (a + sum_list xs)"
  by (induction xs arbitrary: a) (simp_all add: add.assoc)

lemma np_sum_Fin: "np_sum (map Fin xs) = Fin (sum_list xs)"
  by (simp add: np_sum_def np_sum_Fin_aux)

lemma np_mean_Fin:
  "np_mean (map Fin xs) = (if xs = [] then NaN else Fin (sum_list xs / real (length xs)))"
proof -
  have "length (map Fin xs) = length xs" by simp
  then show ?thesis unfolding np_mean_def np_sum_Fin by simp
qed








section \<open>monteCarloMI: the rescaled constellation\<close>




section \<open>calcLLR\<close>

lemma fold_update_block:
  "length (fold (\<lambda>n L. L[i * b + n := v n]) ns L) = length L"
  "q < length L \<Longrightarrow>
     fold (\<lambda>n L. L[i * b + n := v n]) ns L ! q =
       (if \<exists>n \<in> set ns. i * b + n = q then v (q - i * b) else L ! q)"
proof (induction ns arbitrary: L)
  case Nil
  { case 1 show ?case by simp }
  { case 2 show ?case by simp }
next
  case (Cons n ns)
  { case 1 show ?case using Cons.IH(1) by simp }
  { case 2
    then have q: "q < length (L[i * b + n := v n])" by simp
    show ?case using Cons.IH(2) [OF q] 2 by (auto simp: nth_list_update) }
qed

lemma fold_update_block_upt:
  assumes "q < length L"
  shows "fold (\<lambda>n L. L[i * b + n := v n]) [0..<b] L ! q =
           (if i * b \<le> q \<and> q < i * b + b then v (q - i * b) else L ! q)"
proof -
  have "(\<exists>n \<in> set [0..<b]. i * b + n = q) \<longleftrightarrow> i * b \<le> q \<and> q < i * b + b"
    by (auto intro: bexI [of _ "q - i * b"])
  then show ?thesis using fold_update_block(2) [OF assms, of i b v "[0..<b]"] by simp
qed

lemma block_div_mod: "n < b \<Longrightarrow> (i * b + n) div b = i \<and> (i * b + n) mod b = (n::nat)"
  by simp

lemma fold_update_blocks:
  "length (fold (\<lambda>i L. fold (\<lambda>n L. L[i * b + n := v i n]) [0..<b] L) is L) = length L"
  "q < length L \<Longrightarrow>
     fold (\<lambda>i L. fold (\<lambda>n L. L[i * b + n := v i n]) [0..<b] L) is L ! q =
       (if \<exists>i \<in> set is. i * b \<le> q \<and> q < i * b + b then v (q div b) (q mod b) else L ! q)"
proof (induction "is" arbitrary: L)
  case Nil
  { case 1 show ?case by simp }
  { case 2 show ?case by simp }
next
  case (Cons i "is")
  have len: "length (fold (\<lambda>n L. L[i * b + n := v i n]) [0..<b] L) = length L" for L
    by (rule fold_update_block(1))
  { case 1 show ?case by (simp only: fold_simps comp_apply Cons.IH(1) len) }
  { case 2
    then have q: "q < length (fold (\<lambda>n L. L[i * b + n := v i n]) [0..<b] L)" using len by simp
    have blk: "v i (q - i * b) = v (q div b) (q mod b)" if "i * b \<le> q" "q < i * b + b"
    proof -
      have eq: "q = i * b + (q - i * b)" using that(1) by simp
      have less: "q - i * b < b" using that by arith
      have "(i * b + (q - i * b)) div b = i \<and> (i * b + (q - i * b)) mod b = q - i * b"
        by (rule block_div_mod [OF less])
      then show ?thesis using eq by simp
    qed
    let ?ex = "\<exists>j \<in> set is. j * b \<le> q \<and> q < j * b + b"
    have step: "fold (\<lambda>i L. fold (\<lambda>n L. L[i * b + n := v i n]) [0..<b] L) (i # is) L ! q =
                  (if ?ex then v (q div b) (q mod b)
                   else fold (\<lambda>n L. L[i * b + n := v i n]) [0..<b] L ! q)"
      using Cons.IH(2) [OF q] by (simp only: fold_simps comp_apply)
    have inner: "fold (\<lambda>n L. L[i * b + n := v i n]) [0..<b] L ! q =
                   (if i * b \<le> q \<and> q < i * b + b then v i (q - i * b) else L ! q)"
      by (rule fold_update_block_upt [OF 2])
    have split_ex: "(\<exists>j \<in> set (i # is). j * b \<le> q \<and> q < j * b + b) \<longleftrightarrow>
                      (i * b \<le> q \<and> q < i * b + b) \<or> ?ex"
      by simp
    show ?case
    proof (cases ?ex)
      case True
      then show ?thesis by (simp only: step split_ex if_True simp_thms)
    next
      case nex: False
      show ?thesis
      proof (cases "i * b \<le> q \<and> q < i * b + b")
        case True
        then have "v i (q - i * b) = v (q div b) (q mod b)" using blk by blast
        then show ?thesis using True nex by (simp only: step split_ex inner if_True if_False simp_thms)
      next
        case False
        then show ?thesis using nex by (simp only: step split_ex inner if_False simp_thms)
      qed
    qed }
qed

lemma calcLLR_bits_fold:
  assumes "length bitMap = length prob" and "\<forall>row \<in> set bitMap. \<forall>n \<in> set ns. n < length row"
  shows "calcLLR_bits ns i b prob bitMap LLRs =
           Inr (fold (\<lambda>n L. L[i * b + n := llr_of prob bitMap n]) ns LLRs)"
  using assms(2)
proof (induction ns arbitrary: LLRs)
  case Nil
  show ?case by simp
next
  case (Cons n ns)
  have col: "column bitMap n = Inr (map (\<lambda>row. row ! n) bitMap)"
    using Cons.prems by (simp add: column_def)
  have sel: "mask_select prob (map f (map (\<lambda>row. row ! n) bitMap)) =
               Inr (map fst (filter snd (zip prob (map (\<lambda>row. f (row ! n)) bitMap))))" for f
    using assms(1) by (simp add: mask_select_def comp_def)
  have rest: "\<forall>row \<in> set bitMap. \<forall>n \<in> set ns. n < length row" using Cons.prems by simp
  show ?case
    by (simp only: calcLLR_bits.simps col bind_Inr sel Let_def Cons.IH [OF rest] llr_of_def
        fold_simps comp_apply)
qed

lemma calcLLR_loop_fold:
  assumes "length bitMap = length constSymb" and "\<forall>row \<in> set bitMap. b \<le> length row"
  shows "calcLLR_loop is rxSymb sigma2 constSymb bitMap b LLRs =
           Inr (fold (\<lambda>i L. fold (\<lambda>n L.
                  L[i * b + n := llr_of (likelihoods (rxSymb ! i) sigma2 constSymb) bitMap n])
                  [0..<b] L) is LLRs)"
proof (induction "is" arbitrary: LLRs)
  case Nil
  show ?case by simp
next
  case (Cons i "is")
  have len: "length bitMap = length (likelihoods (rxSymb ! i) sigma2 constSymb)"
    using assms(1) by (simp add: likelihoods_def)
  have width: "\<forall>row \<in> set bitMap. \<forall>n \<in> set [0..<b]. n < length row"
    using assms(2) by auto
  show ?case
    using calcLLR_bits_fold [OF len width, of i b] Cons.IH
    by (simp add: likelihoods_def [symmetric] Let_def)
qed

lemma calcLLR_entries:
  assumes "constSymb \<noteq> []" and "length bitMap = length constSymb"
    and "\<forall>row \<in> set bitMap. ilog2 (length constSymb) \<le> length row"
  shows "\<exists>LLRs. calcLLR rxSymb sigma2 constSymb bitMap = Inr LLRs
           \<and> length LLRs = length rxSymb * ilog2 (length constSymb)
           \<and> (\<forall>i < length rxSymb. \<forall>n < ilog2 (length constSymb).
                 LLRs ! (i * ilog2 (length constSymb) + n) =
                   llr_of (likelihoods (rxSymb ! i) sigma2 constSymb) bitMap n)"
proof -
  let ?b = "ilog2 (length constSymb)"
  let ?N = "length rxSymb"
  let ?v = "\<lambda>i n. llr_of (likelihoods (rxSymb ! i) sigma2 constSymb) bitMap n"
  let ?L = "fold (\<lambda>i L. fold (\<lambda>n L. L[i * ?b + n := ?v i n]) [0..<?b] L) [0..<?N]
              (replicate (?N * ?b) (Fin 0))"
  have run: "calcLLR rxSymb sigma2 constSymb bitMap = Inr ?L"
    using assms(1) calcLLR_loop_fold [OF assms(2,3)]
    by (simp add: calcLLR_def int_log2_int)
  have len: "length ?L = ?N * ?b"
    using fold_update_blocks(1) [of ?b ?v "[0..<?N]" "replicate (?N * ?b) (Fin 0)"] by simp
  have ent: "?L ! (i * ?b + n) = ?v i n" if "i < ?N" "n < ?b" for i n
  proof -
    have "i * ?b + n < Suc i * ?b" using that(2) by simp
    also have "\<dots> \<le> ?N * ?b" using that(1) by (intro mult_le_mono1) simp
    finally have q: "i * ?b + n < length (replicate (?N * ?b) (Fin 0 :: npfloat))" by simp
    have ex: "\<exists>j \<in> set [0..<?N]. j * ?b \<le> i * ?b + n \<and> i * ?b + n < j * ?b + ?b"
      using that by (intro bexI [of _ i]) simp_all
    show ?thesis
      using fold_update_blocks(2) [OF q, of ?b ?v "[0..<?N]"] ex that(2) by simp
  qed
  show ?thesis using run len ent by blast
qed


lemma np_log_Fin:
  "np_log (Fin a) = (if a = 0 then NInf else if a < 0 then NaN else Fin (ln a))"
  by (simp add: np_log_def log_def)



section \<open>fastBERcalc\<close>







lemma set_slice_length:
  "start + n \<le> length a \<Longrightarrow> set_slice a start n vals = Inr a' \<Longrightarrow> length a' = length a"
  by (auto simp: set_slice_def split: if_splits)

lemma hardDecision_loop_length:
  "\<forall>i \<in> set is. i * b + b \<le> length d \<Longrightarrow>
     hardDecision_loop is rxSymb constSymb bitMap b d = Inr d' \<Longrightarrow> length d' = length d"
proof (induction "is" arbitrary: d)
  case Nil
  then show ?case by simp
next
  case (Cons i "is")
  from Cons.prems(2) obtain j d1 where
    s: "set_slice d (i * b) b (map real_of_int (bitMap ! j)) = Inr d1"
    and rest: "hardDecision_loop is rxSymb constSymb bitMap b d1 = Inr d'"
    by (auto simp: bind_eq_Inr split: if_splits)
  have l1: "length d1 = length d" using set_slice_length [OF _ s] Cons.prems(1) by simp
  show ?case using Cons.IH [OF _ rest] Cons.prems(1) l1 by simp
qed

lemma hardDecision_length:
  assumes "hardDecision rxSymb constSymb bitMap = Inr d"
  shows "length d = length rxSymb * ilog2 (length constSymb)"
proof -
  let ?b = "ilog2 (length constSymb)"
  from assms have run: "hardDecision_loop [0..<length rxSymb] rxSymb constSymb bitMap ?b
                          (replicate (length rxSymb * ?b) 0) = Inr d"
    by (auto simp: hardDecision_def int_log2_int bind_eq_Inr split: if_splits)
  have "i * ?b + ?b \<le> length rxSymb * ?b" if "i < length rxSymb" for i
  proof -
    have "i * ?b + ?b = Suc i * ?b" by simp
    also have "\<dots> \<le> length rxSymb * ?b" using that by (intro mult_le_mono1) simp
    finally show ?thesis .
  qed
  then have "\<forall>i \<in> set [0..<length rxSymb]. i * ?b + ?b \<le> length (replicate (length rxSymb * ?b) (0::real))"
    by simp
  from hardDecision_loop_length [OF this run] show ?thesis by simp
qed






lemma reshape_rows_nth:
  assumes "reshape_rows b xs = Inr rows"
  shows "0 < b" and "length xs = length rows * b" and "length rows = length xs div b"
    and "g < length rows \<Longrightarrow> length (rows ! g) = b"
    and "g < length rows \<Longrightarrow> j < b \<Longrightarrow> rows ! g ! j = xs ! (g * b + j)"
proof -
  from assms have b: "0 < b" and m: "length xs mod b = 0"
    and rows: "rows = map (\<lambda>g. take b (drop (g * b) xs)) [0..<length xs div b]"
    by (auto simp: reshape_rows_def split: if_splits)
  show "0 < b" by (rule b)
  show G: "length rows = length xs div b" using rows by simp
  show L: "length xs = length rows * b" using m G by (metis mod_0_imp_dvd dvd_div_mult_self)
  { assume g: "g < length rows"
    have "Suc g * b \<le> length rows * b" using g by (intro mult_le_mono1) simp
    then have le: "g * b + b \<le> length xs" using L by simp
    have row: "rows ! g = take b (drop (g * b) xs)" using g rows by simp
    show "length (rows ! g) = b" using le by (simp add: row)
    { assume j: "j < b"
      show "rows ! g ! j = xs ! (g * b + j)" using le j by (simp add: row) } }
qed









section \<open>monteCarloGMI\<close>

lemma monteCarloGMI_via_setup:
  "monteCarloGMI rx tx M constSymb bits =
     bind (gmi_setup rx tx M constSymb bits) (\<lambda>(rx', tx', noiseVar, bitMap).
       bind (gmi_loop [0..<length (as_columns tx)] rx' tx' noiseVar (mean_energy constSymb)
               constSymb bitMap M (replicate (length (as_columns tx)) (Fin 0)) None)
         (\<lambda>(GMI, MIperBitPosition).
            case MIperBitPosition of None \<Rightarrow> Inl UnboundLocalError
            | Some MI \<Rightarrow> Inr (GMI, MI)))"
proof (cases "map length (as_columns rx) = map length (as_columns tx)")
  case False
  then show ?thesis by (simp add: monteCarloGMI_def gmi_setup_def Let_def)
next
  case True
  show ?thesis
  proof (cases "int_log2 M")
    case (Inl e)
    then show ?thesis using True by (simp add: monteCarloGMI_def gmi_setup_def Let_def)
  next
    case b: (Inr b)
    show ?thesis
    proof (cases "reshape_rows b bits")
      case (Inl e)
      then show ?thesis using True b by (simp add: monteCarloGMI_def gmi_setup_def Let_def)
    next
      case bm: (Inr bitMap)
      show ?thesis
      proof (cases "gmi_norm_loop [0..<length (as_columns tx)] (as_columns rx) (as_columns tx)")
        case (Inl e)
        then show ?thesis using True b bm by (simp add: monteCarloGMI_def gmi_setup_def Let_def)
      next
        case (Inr p)
        then show ?thesis using True b bm
          by (cases p) (simp add: monteCarloGMI_def gmi_setup_def Let_def)
      qed
    qed
  qed
qed

lemma gmi_bit_loop_length:
  "length (gmi_bit_loop ns b btx LLRs MI) = length MI"
  by (induction ns arbitrary: MI) simp_all

lemma gmi_mode_length:
  assumes "gmi_mode rx tx noiseVar Es constSymb bitMap M k = Inr MI"
  shows "\<exists>b. int_log2 M = Inr b \<and> length MI = b"
proof -
  from assms obtain b btx LLRs where b: "int_log2 M = Inr b"
    and MI: "MI = gmi_bit_loop [0..<b] b btx LLRs (replicate b (Fin 0))"
    unfolding gmi_mode_def Let_def bind_eq_Inr by auto
  show ?thesis using b by (simp add: MI gmi_bit_loop_length)
qed

lemma gmi_loop_result:
  "gmi_loop ks rx tx noiseVar Es constSymb bitMap M GMI mi = Inr (GMI', mi') \<Longrightarrow>
     length GMI' = length GMI
     \<and> (if ks = [] then mi' = mi
         else \<exists>MI. gmi_mode rx tx noiseVar Es constSymb bitMap M (last ks) = Inr MI \<and> mi' = Some MI)
     \<and> (\<forall>j < length GMI.
           if j \<in> set ks
           then \<exists>MI. gmi_mode rx tx noiseVar Es constSymb bitMap M j = Inr MI \<and> GMI' ! j = np_sum MI
           else GMI' ! j = GMI ! j)"
proof (induction ks arbitrary: GMI mi)
  case Nil
  then show ?case by simp
next
  case (Cons k ks)
  from Cons.prems obtain MI where
    m: "gmi_mode rx tx noiseVar Es constSymb bitMap M k = Inr MI"
    and rest: "gmi_loop ks rx tx noiseVar Es constSymb bitMap M (GMI[k := np_sum MI]) (Some MI)
                 = Inr (GMI', mi')"
    by (auto simp: bind_eq_Inr)
  note IH = Cons.IH [OF rest]
  have len: "length GMI' = length GMI" using IH by simp
  have lst: "\<exists>MI. gmi_mode rx tx noiseVar Es constSymb bitMap M (last (k # ks)) = Inr MI \<and> mi' = Some MI"
  proof (cases "ks = []")
    case True
    then show ?thesis using IH m by simp
  next
    case False
    then show ?thesis using IH by simp
  qed
  have ent: "if j \<in> set (k # ks)
           then \<exists>MI. gmi_mode rx tx noiseVar Es constSymb bitMap M j = Inr MI \<and> GMI' ! j = np_sum MI
           else GMI' ! j = GMI ! j" if j: "j < length GMI" for j
  proof -
    have j': "j < length (GMI[k := np_sum MI])" using j by simp
    from IH j' have ih: "if j \<in> set ks
           then \<exists>MI. gmi_mode rx tx noiseVar Es constSymb bitMap M j = Inr MI \<and> GMI' ! j = np_sum MI
           else GMI' ! j = GMI[k := np_sum MI] ! j" by blast
    show ?thesis
    proof (cases "j \<in> set ks")
      case True
      then show ?thesis using ih by simp
    next
      case False
      show ?thesis
      proof (cases "j = k")
        case True
        then show ?thesis using ih False j m by simp
      next
        case jk: False
        then show ?thesis using ih False by simp
      qed
    qed
  qed
  show ?case using len lst ent by simp
qed

lemma gmi_mode_uses_LLRs:
  assumes "gmi_mode rx tx noiseVar Es constSymb bitMap M k = Inr MI"
  shows "\<exists>stx btx LLRs b.
           scale_by (np_sqrt Es) (tx ! k) = Inr stx \<and> hardDecision stx constSymb bitMap = Inr btx
         \<and> gmi_LLRs (rx ! k) (noiseVar ! k) constSymb Es bitMap = Inr LLRs
         \<and> int_log2 M = Inr b
         \<and> MI = gmi_bit_loop [0..<b] b btx LLRs (replicate b (Fin 0))"
  using assms unfolding gmi_mode_def Let_def bind_eq_Inr by auto

lemma clipLLR_finite_or_nan: "v \<in> set (clipLLR LLRs) \<Longrightarrow> v \<noteq> PInf \<and> v \<noteq> NInf"
  by (auto simp: clipLLR_def split: if_splits)

lemma gmi_LLRs_clipped:
  assumes "gmi_LLRs rxk sigma2 constSymb Es bitMap = Inr LLRs"
  shows "\<exists>constNorm raw. divide_by (np_sqrt Es) constSymb = Inr constNorm
           \<and> calcLLR rxk sigma2 constNorm bitMap = Inr raw \<and> LLRs = clipLLR raw"
  using assms unfolding gmi_LLRs_def bind_eq_Inr by auto

lemma gmi_setup_noiseVar:
  assumes "gmi_setup rx tx M constSymb bits = Inr (rx', tx', noiseVar, bitMap)"
  shows "noiseVar = var_axis0 (as_columns rx) (as_columns tx)"
  using assms unfolding gmi_setup_def Let_def
  by (auto simp: bind_eq_Inr split: if_splits prod.splits)

lemma monteCarloGMI_result:
  assumes "monteCarloGMI rx tx M constSymb bits = Inr (GMI, MIperBitPosition)"
  shows "0 < length (as_columns tx) \<and> length GMI = length (as_columns tx)
         \<and> (\<exists>rx' tx' noiseVar bitMap b.
               gmi_setup rx tx M constSymb bits = Inr (rx', tx', noiseVar, bitMap)
             \<and> int_log2 M = Inr b \<and> length MIperBitPosition = b
             \<and> gmi_mode rx' tx' noiseVar (mean_energy constSymb) constSymb bitMap M
                  (length (as_columns tx) - 1) = Inr MIperBitPosition
             \<and> (\<forall>k < length (as_columns tx). \<exists>MI.
                   gmi_mode rx' tx' noiseVar (mean_energy constSymb) constSymb bitMap M k = Inr MI
                   \<and> GMI ! k = np_sum MI))"
proof -
  let ?n = "length (as_columns tx)"
  let ?Es = "mean_energy constSymb"
  from assms have "bind (gmi_setup rx tx M constSymb bits) (\<lambda>(rx', tx', noiseVar, bitMap).
       bind (gmi_loop [0..<?n] rx' tx' noiseVar ?Es constSymb bitMap M (replicate ?n (Fin 0)) None)
         (\<lambda>(GMI, MIperBitPosition).
            case MIperBitPosition of None \<Rightarrow> Inl UnboundLocalError
            | Some MI \<Rightarrow> Inr (GMI, MI))) = Inr (GMI, MIperBitPosition)"
    by (simp only: monteCarloGMI_via_setup)
  then obtain rx' tx' noiseVar bitMap G mi where
    s: "gmi_setup rx tx M constSymb bits = Inr (rx', tx', noiseVar, bitMap)"
    and l: "gmi_loop [0..<?n] rx' tx' noiseVar ?Es constSymb bitMap M (replicate ?n (Fin 0)) None
            = Inr (G, mi)"
    and r: "(case mi of None \<Rightarrow> Inl UnboundLocalError | Some MI \<Rightarrow> Inr (G, MI))
            = Inr (GMI, MIperBitPosition)"
    by (auto simp: bind_eq_Inr split: prod.splits)
  from r have mi: "mi = Some MIperBitPosition" and G: "G = GMI"
    by (auto split: option.splits)
  from l have loop: "gmi_loop [0..<?n] rx' tx' noiseVar ?Es constSymb bitMap M
                       (replicate ?n (Fin 0)) None = Inr (GMI, Some MIperBitPosition)"
    by (simp add: mi G)
  note res = gmi_loop_result [OF loop]
  have pos: "0 < ?n"
  proof (rule ccontr)
    assume "\<not> 0 < ?n"
    then have "[0..<?n] = []" by simp
    then show False using res by simp
  qed
  have len: "length GMI = ?n" using res by simp
  have lastk: "last [0..<?n] = ?n - 1" using pos by (simp add: last_upt)
  have ne: "[0..<?n] \<noteq> []" using pos by simp
  have last_mode: "gmi_mode rx' tx' noiseVar ?Es constSymb bitMap M (?n - 1) = Inr MIperBitPosition"
    using res ne lastk by auto
  obtain b where b: "int_log2 M = Inr b" "length MIperBitPosition = b"
    using gmi_mode_length [OF last_mode] by blast
  have each: "\<forall>k < ?n. \<exists>MI. gmi_mode rx' tx' noiseVar ?Es constSymb bitMap M k = Inr MI
                \<and> GMI ! k = np_sum MI"
    using res by auto
  have ex: "\<exists>rx' tx' noiseVar bitMap b.
               gmi_setup rx tx M constSymb bits = Inr (rx', tx', noiseVar, bitMap)
             \<and> int_log2 M = Inr b \<and> length MIperBitPosition = b
             \<and> gmi_mode rx' tx' noiseVar ?Es constSymb bitMap M (?n - 1) = Inr MIperBitPosition
             \<and> (\<forall>k < ?n. \<exists>MI. gmi_mode rx' tx' noiseVar ?Es constSymb bitMap M k = Inr MI
                   \<and> GMI ! k = np_sum MI)"
    by (intro exI conjI) (rule s b last_mode each)+
  show ?thesis by (intro conjI) (rule pos len ex)+
qed

section \<open>The estimators return on well-formed arguments\<close>

lemma sum_squares_pos:
  assumes "\<exists>v \<in> set x. v \<noteq> (0::complex)"
  shows "0 < sum_list (map (\<lambda>v. (cmod v)\<^sup>2) x)"
  using assms
proof (induction x)
  case Nil
  then show ?case by simp
next
  case (Cons v x)
  have nonneg: "0 \<le> sum_list (map (\<lambda>v. (cmod v)\<^sup>2) y)" for y :: "complex list"
    by (induction y) simp_all
  show ?case
  proof (cases "v = 0")
    case True
    then show ?thesis using Cons by simp
  next
    case False
    have "0 < (cmod v)\<^sup>2 + sum_list (map (\<lambda>v. (cmod v)\<^sup>2) x)"
    proof (rule add_pos_nonneg)
      show "0 < (cmod v)\<^sup>2" using False by simp
      show "0 \<le> sum_list (map (\<lambda>v. (cmod v)\<^sup>2) x)" by (rule nonneg)
    qed
    then show ?thesis by simp
  qed
qed

lemma pnorm_returns:
  assumes "x = [] \<or> (\<exists>v \<in> set x. v \<noteq> 0)"
  shows "\<exists>y. pnorm x = Inr y \<and> (0 \<in> set y \<longleftrightarrow> 0 \<in> set x)"
proof (cases "x = []")
  case True
  then show ?thesis by (simp add: pnorm_def)
next
  case False
  let ?p = "sum_list (map (\<lambda>v. (cmod v)\<^sup>2) x) / real (length x)"
  have "\<exists>v \<in> set x. v \<noteq> 0" using assms False by simp
  then have sum: "0 < sum_list (map (\<lambda>v. (cmod v)\<^sup>2) x)" by (rule sum_squares_pos)
  have sum0: "sum_list (map (\<lambda>v. (cmod v)\<^sup>2) x) \<noteq> 0" using sum by simp
  have s: "complex_of_real (sqrt ?p) \<noteq> 0" using sum0 False by simp
  have run: "pnorm x = Inr (map (\<lambda>v. v / complex_of_real (sqrt ?p)) x)"
    using False sum0 by (simp add: pnorm_def Let_def)
  have "0 \<in> set (map (\<lambda>v. v / complex_of_real (sqrt ?p)) x) \<longleftrightarrow> 0 \<in> set x"
    using s by (auto simp: image_iff)
  then show ?thesis using run by simp
qed

lemma conditionable_returns:
  assumes "conditionable rxk txk"
  shows "\<exists>v w u. pnorm rxk = Inr v \<and> pnorm txk = Inr w \<and> phase_correct w v = Inr u"
proof -
  have rx0: "0 \<notin> set rxk" and tx: "txk = [] \<or> (\<exists>v \<in> set txk. v \<noteq> 0)"
    using assms by (simp_all add: conditionable_def)
  have "rxk = [] \<or> (\<exists>v \<in> set rxk. v \<noteq> 0)"
  proof (cases rxk)
    case Nil
    then show ?thesis by simp
  next
    case (Cons a as)
    then show ?thesis using rx0 by auto
  qed
  then obtain v where v: "pnorm rxk = Inr v" "0 \<in> set v \<longleftrightarrow> 0 \<in> set rxk"
    using pnorm_returns by blast
  obtain w where w: "pnorm txk = Inr w" using pnorm_returns [OF tx] by blast
  have "0 \<notin> set v" using v(2) rx0 by simp
  then have "\<exists>u. phase_correct w v = Inr u" by (simp add: phase_correct_def)
  then show ?thesis using v(1) w by blast
qed

lemma gmi_norm_loop_returns:
  assumes "distinct ks"
    and "\<forall>k \<in> set ks. k < length rx \<and> k < length tx \<and> conditionable (rx ! k) (tx ! k)"
  shows "\<exists>rx' tx'. gmi_norm_loop ks rx tx = Inr (rx', tx')"
  using assms
proof (induction ks arbitrary: rx tx)
  case Nil
  show ?case by simp
next
  case (Cons k ks)
  have k: "k < length rx" "k < length tx" "conditionable (rx ! k) (tx ! k)" and nk: "k \<notin> set ks"
    using Cons.prems by simp_all
  obtain v w u where v: "pnorm (rx ! k) = Inr v" and w: "pnorm (tx ! k) = Inr w"
    and u: "phase_correct w v = Inr u"
    using conditionable_returns [OF k(3)] by blast
  have rest: "\<forall>j \<in> set ks. j < length (rx[k := v, k := u]) \<and> j < length (tx[k := w])
                \<and> conditionable (rx[k := v, k := u] ! j) (tx[k := w] ! j)"
  proof (intro ballI)
    fix j assume j: "j \<in> set ks"
    then have jk: "j \<noteq> k" using nk by auto
    have "j < length rx \<and> j < length tx \<and> conditionable (rx ! j) (tx ! j)"
      using Cons.prems(2) j by simp
    then show "j < length (rx[k := v, k := u]) \<and> j < length (tx[k := w])
                \<and> conditionable (rx[k := v, k := u] ! j) (tx[k := w] ! j)"
      using jk by simp
  qed
  have d: "distinct ks" using Cons.prems by simp
  from Cons.IH [OF d rest] show ?case
    using k(1,2) by (simp add: v w u Let_def)
qed


lemma mean_energy_pos:
  assumes "\<exists>c \<in> set constSymb. c \<noteq> 0"
  shows "\<exists>e. mean_energy constSymb = Fin e \<and> 0 < e"
proof -
  have ne: "constSymb \<noteq> []" using assms by auto
  have "map (\<lambda>c. Fin ((cmod c)\<^sup>2)) constSymb = map Fin (map (\<lambda>c. (cmod c)\<^sup>2) constSymb)"
    by simp
  then have "mean_energy constSymb =
               Fin (sum_list (map (\<lambda>c. (cmod c)\<^sup>2) constSymb) / real (length constSymb))"
    unfolding mean_energy_def using ne by (simp only: np_mean_Fin) simp
  moreover have "0 < sum_list (map (\<lambda>c. (cmod c)\<^sup>2) constSymb) / real (length constSymb)"
    using sum_squares_pos [OF assms] ne by simp
  ultimately show ?thesis by blast
qed

lemma reshape_rows_bitmap:
  assumes "0 < b" and "length bits = M * b"
  shows "\<exists>bitMap. reshape_rows b bits = Inr bitMap \<and> bitmap_shape bitMap M b"
proof -
  have "length bits mod b = 0" using assms(2) by simp
  then obtain bitMap where r: "reshape_rows b bits = Inr bitMap"
    using assms(1) by (simp add: reshape_rows_def)
  note n = reshape_rows_nth [OF r]
  have "length bitMap = M" using n(3) assms by simp
  moreover have "\<forall>row \<in> set bitMap. length row = b"
    using n(4) by (auto simp: in_set_conv_nth)
  ultimately show ?thesis using r by (simp add: bitmap_shape_def)
qed

lemma scale_by_Fin: "scale_by (np_sqrt (Fin e)) x = (if e < 0 \<and> x \<noteq> [] then Inl NonFinite
     else Inr (if e < 0 then [] else map (\<lambda>v. complex_of_real (sqrt e) * v) x))"
  by (simp add: scale_by_def np_sqrt_def)

lemma hardDecision_returns:
  assumes "length constSymb = 2 ^ b" and "bitmap_shape bitMap (2 ^ b) b"
  shows "\<exists>d. hardDecision rxSymb constSymb bitMap = Inr d \<and> length d = length rxSymb * b"
proof -
  have ne: "constSymb \<noteq> []" using assms(1) by auto
  have "hardDecision rxSymb constSymb bitMap =
          Inr (concat (map (\<lambda>r. map real_of_int (bitMap ! nearest_index constSymb r)) rxSymb))"
    using assms ne by (intro hardDecision_eq) (simp_all add: bitmap_shape_def)
  then show ?thesis using hardDecision_length [of rxSymb constSymb bitMap] assms(1) by simp
qed



lemma well_formed_columns:
  assumes "well_formed rx tx M constSymb bits b"
  shows "\<forall>k \<in> set [0..<length (as_columns tx)].
           k < length (as_columns rx) \<and> k < length (as_columns tx)
           \<and> conditionable (as_columns rx ! k) (as_columns tx ! k)"
proof -
  have sh: "map length (as_columns rx) = map length (as_columns tx)"
    and c: "list_all (\<lambda>k. conditionable (as_columns rx ! k) (as_columns tx ! k))
              [0..<length (as_columns tx)]"
    using assms by (simp_all add: well_formed_def)
  have "length (as_columns rx) = length (as_columns tx)" using sh by (metis length_map)
  then show ?thesis using c by (simp add: list_all_iff)
qed


lemma gmi_mode_returns:
  assumes "0 < e" and "length constSymb = 2 ^ b" and "bitmap_shape bitMap (2 ^ b) b" and "M = 2 ^ b"
  shows "\<exists>MI. gmi_mode rx tx noiseVar (Fin e) constSymb bitMap M k = Inr MI"
proof -
  let ?s = "\<lambda>x. map (\<lambda>v. complex_of_real (sqrt e) * v) x"
  let ?cn = "map (\<lambda>v. v / complex_of_real (sqrt e)) constSymb"
  have sc: "scale_by (np_sqrt (Fin e)) x = Inr (?s x)" for x
    using assms(1) by (simp add: scale_by_Fin)
  obtain btx where btx: "hardDecision (?s (tx ! k)) constSymb bitMap = Inr btx"
    using hardDecision_returns [OF assms(2,3), of "?s (tx ! k)"] by auto
  have dv: "divide_by (np_sqrt (Fin e)) constSymb = Inr ?cn"
    using assms(1) by (simp add: divide_by_def np_sqrt_def)
  have ne: "?cn \<noteq> []" using assms(2) by auto
  have rows: "length bitMap = length ?cn" and width: "\<forall>row \<in> set bitMap. ilog2 (length ?cn) \<le> length row"
    using assms(2,3) by (simp_all add: bitmap_shape_def)
  obtain raw where raw: "calcLLR (rx ! k) (noiseVar ! k) ?cn bitMap = Inr raw"
    using calcLLR_entries [OF ne rows width] by blast
  have il: "int_log2 M = Inr b" unfolding assms(4) using int_log2_int [of "2 ^ b"] by simp
  show ?thesis by (simp add: gmi_mode_def sc btx gmi_LLRs_def dv raw il Let_def)
qed

lemma gmi_loop_returns:
  assumes "\<forall>k \<in> set ks. \<exists>MI. gmi_mode rx tx noiseVar Es constSymb bitMap M k = Inr MI"
  shows "\<exists>GMI' mi'. gmi_loop ks rx tx noiseVar Es constSymb bitMap M GMI mi = Inr (GMI', mi')
           \<and> (ks \<noteq> [] \<longrightarrow> mi' \<noteq> None)"
  using assms
proof (induction ks arbitrary: GMI mi)
  case Nil
  show ?case by simp
next
  case (Cons k ks)
  obtain MI where m: "gmi_mode rx tx noiseVar Es constSymb bitMap M k = Inr MI"
    using Cons.prems by auto
  have rest: "\<forall>k \<in> set ks. \<exists>MI. gmi_mode rx tx noiseVar Es constSymb bitMap M k = Inr MI"
    using Cons.prems by simp
  obtain GMI' mi' where l: "gmi_loop ks rx tx noiseVar Es constSymb bitMap M (GMI[k := np_sum MI]) (Some MI)
                     = Inr (GMI', mi')" and nn: "ks \<noteq> [] \<longrightarrow> mi' \<noteq> None"
    using Cons.IH [OF rest] by blast
  have "mi' \<noteq> None"
  proof (cases "ks = []")
    case True
    then show ?thesis using l by auto
  next
    case False
    then show ?thesis using nn by simp
  qed
  then show ?case using l by (simp add: m)
qed

lemma monteCarloGMI_returns:
  assumes wf: "well_formed rx tx M constSymb bits b" and modes: "0 < length (as_columns tx)"
  shows "\<exists>GMI MI. monteCarloGMI rx tx M constSymb bits = Inr (GMI, MI)"
proof -
  let ?rx = "as_columns rx" and ?tx = "as_columns tx"
  let ?n = "length ?tx"
  have sh: "map length ?rx = map length ?tx" and M: "M = 2 ^ b" and b: "0 < b"
    and C: "length constSymb = 2 ^ b" and nz: "\<exists>c \<in> set constSymb. c \<noteq> 0"
    and lb: "length bits = 2 ^ b * b"
    using wf by (simp_all add: well_formed_def)
  have il: "int_log2 M = Inr b" unfolding M using int_log2_int [of "2 ^ b"] by simp
  obtain bitMap where bm: "reshape_rows b bits = Inr bitMap" and bs: "bitmap_shape bitMap (2 ^ b) b"
    using reshape_rows_bitmap [OF b lb] by blast
  obtain rx' tx' where norm: "gmi_norm_loop [0..<?n] ?rx ?tx = Inr (rx', tx')"
    using gmi_norm_loop_returns [OF distinct_upt well_formed_columns [OF wf]] by blast
  obtain e where Es: "mean_energy constSymb = Fin e" "0 < e" using mean_energy_pos [OF nz] by blast
  have stp: "gmi_setup rx tx M constSymb bits = Inr (rx', tx', var_axis0 ?rx ?tx, bitMap)"
    unfolding gmi_setup_def Let_def using sh by (simp add: il bm norm)
  have each: "\<forall>k \<in> set [0..<?n]. \<exists>MI.
                gmi_mode rx' tx' (var_axis0 ?rx ?tx) (mean_energy constSymb) constSymb bitMap M k = Inr MI"
    unfolding Es(1) using gmi_mode_returns [OF Es(2) C bs M] by simp
  have ne: "[0..<?n] \<noteq> []" using modes by simp
  obtain GMI mi where loop:
    "gmi_loop [0..<?n] rx' tx' (var_axis0 ?rx ?tx) (mean_energy constSymb) constSymb bitMap M
       (replicate ?n (Fin 0)) None = Inr (GMI, mi)" and mn: "mi \<noteq> None"
    using gmi_loop_returns [OF each] ne by blast
  then obtain MI where mi: "mi = Some MI" by auto
  have "monteCarloGMI rx tx M constSymb bits = Inr (GMI, MI)"
    unfolding monteCarloGMI_via_setup by (simp add: stp loop mi)
  then show ?thesis by blast
qed

section \<open>The constellation as its own received and transmitted sequence\<close>







section \<open>Runs on concrete inputs\<close>

text \<open>A binary constellation \<open>[-1, 1]\<close> with bit map \<open>[[0], [1]]\<close>; three symbols, one of them received with the wrong sign.\<close>

lemma ex_pnorm_a: "pnorm [1, - 1, - 1] = Inr [1, - 1, - 1]"
  by (simp add: pnorm_def)

lemma ex_pnorm_b: "pnorm [1, - 1, 1] = Inr [1, - 1, 1]"
  by (simp add: pnorm_def)

lemma ex_phase: "phase_correct [1, - 1, 1] [1, - 1, - 1] = Inr [1 / 3, - (1 / 3), - (1 / 3)]"
  by (simp add: phase_correct_def cmean_def)

lemma ex_snr:
  "np_mul (Fin 10) (np_log10 (np_div (signal_power [1, - 1, 1])
      (signal_power (map2 (\<lambda>r t. r - t) [1 / 3, - (1 / 3), - (1 / 3)] [1, - 1, 1])))) =
   Fin (10 * log 10 (9 / 8))"
  by (simp add: signal_power_def cmean_def np_log10_def)

lemma ex_prep:
  "ber_prep_loop [0..<1] [[1, - 1, - 1]] [[1, - 1, 1]] [Fin 0] =
     Inr ([[1 / 3, - (1 / 3), - (1 / 3)]], [[1, - 1, 1]], [Fin (10 * log 10 (9 / 8))])"
  by (simp add: upt_1 ex_pnorm_a ex_pnorm_b ex_phase signal_power_def cmean_def np_log10_def)






text \<open>The same constellation in \<open>monteCarloGMI\<close>.\<close>

lemma np_log2_one_plus_exp: "np_log2 (Fin (1 + exp x)) = Fin (log 2 (1 + exp x))"
proof -
  have "0 < 1 + exp x" by (simp add: add_pos_pos)
  then show ?thesis by (simp add: np_log2_def)
qed

lemma bpsk_bits: "int_log2 2 = Inr 1" "reshape_rows 1 [0, 1 :: int] = Inr [[0], [1]]"
  by (simp_all add: int_log2_def ilog2.simps reshape_rows_def upt_rec)

lemma bpsk_Es: "mean_energy [- 1, 1] = Fin 1"
  by (simp add: mean_energy_def np_mean_def np_sum_def)

lemma bpsk_norm: "divide_by (np_sqrt (Fin 1)) [- 1, 1] = Inr [- 1, 1]"
  by (simp add: divide_by_def np_sqrt_def)

lemma bpsk_scale: "scale_by (np_sqrt (Fin 1)) x = Inr x"
  by (induction x) (simp_all add: scale_by_def np_sqrt_def)

lemma bpsk_hd: "hardDecision [1, - 1] [- 1, 1] [[0], [1]] = Inr [1, 0]"
  by (simp add: hardDecision_def int_log2_def ilog2.simps argmin_def set_slice_def upt_rec)

lemma pnorm_pm1: "pnorm [1, - 1] = Inr [1, - 1]"
  by (simp add: pnorm_def)

lemma phase_pm1: "phase_correct [1, - 1] [1, - 1] = Inr [1, - 1]"
  by (simp add: phase_correct_def cmean_def)

text \<open>Received symbols twice as large as the transmitted ones.\<close>

lemma pnorm_pm2: "pnorm [2, - 2] = Inr [1, - 1]"
  by (simp add: pnorm_def)

lemma var_raw_pm2: "var_axis0 [[2, - 2]] [[1, - 1]] = [Fin 1]"
  by (simp add: var_axis0_def np_var_def cmean_def np_mean_def np_sum_def)

lemma var_aligned: "var_axis0 [[1, - 1]] [[1, - 1]] = [Fin 0]"
  by (simp add: var_axis0_def np_var_def cmean_def np_mean_def np_sum_def)

lemma setup_pm2:
  "gmi_setup (Arr1 [2, - 2]) (Arr1 [1, - 1]) 2 [- 1, 1] [0, 1] =
     Inr ([[1, - 1]], [[1, - 1]], [Fin 1], [[0], [1]])"
  by (simp add: gmi_setup_def bpsk_bits [unfolded One_nat_def] upt_1 pnorm_pm1 pnorm_pm2 phase_pm1
      var_raw_pm2 Let_def)

lemma calcLLR_unit_var:
  "calcLLR [1, - 1] (Fin 1) [- 1, 1] [[0], [1]] = Inr [Fin (- 4), Fin 4]"
  by (simp add: calcLLR_def int_log2_def ilog2.simps upt_rec column_def mask_select_def
      np_sum_def np_sub_def np_log_Fin)

lemma LLRs_pm2: "gmi_LLRs [1, - 1] (Fin 1) [- 1, 1] (Fin 1) [[0], [1]] = Inr [Fin (- 4), Fin 4]"
  by (simp add: gmi_LLRs_def bpsk_norm calcLLR_unit_var clipLLR_def)

lemma strided_pair: "strided 0 (Suc 0) [x, y] = [x, y]"
  by (simp add: strided_def upt_rec)

lemma mode_pm2:
  "gmi_mode [[1, - 1]] [[1, - 1]] [Fin 1] (Fin 1) [- 1, 1] [[0], [1]] 2 0 =
     Inr [Fin (1 - log 2 (1 + exp (- 4)))]"
  by (simp add: gmi_mode_def bpsk_scale bpsk_hd LLRs_pm2 bpsk_bits upt_1 strided_pair
      np_log2_one_plus_exp np_mean_def np_sum_def np_sub_def)

lemma monteCarloGMI_pm2:
  "monteCarloGMI (Arr1 [2, - 2]) (Arr1 [1, - 1]) 2 [- 1, 1] [0, 1] =
     Inr ([Fin (1 - log 2 (1 + exp (- 4)))], [Fin (1 - log 2 (1 + exp (- 4)))])"
  by (simp add: monteCarloGMI_via_setup setup_pm2 bpsk_Es upt_1 mode_pm2 np_sum_def)

text \<open>Received symbols larger than the transmitted ones by one twelfth.\<close>

lemma sqrt_169_144: "sqrt (169 / 144) = 13 / 12"
proof -
  have "sqrt ((13 / 12)\<^sup>2) = 13 / 12" by (simp only: real_sqrt_abs)
  then show ?thesis by (simp add: power2_eq_square)
qed

lemma pnorm_13_12: "pnorm [13 / 12, - (13 / 12)] = Inr [1, - 1]"
  by (simp add: pnorm_def power2_eq_square sqrt_169_144 norm_divide)

lemma var_raw_13_12: "var_axis0 [[13 / 12, - (13 / 12)]] [[1, - 1]] = [Fin (1 / 144)]"
  by (simp add: var_axis0_def np_var_def cmean_def np_mean_def np_sum_def power2_eq_square norm_divide)

lemma setup_13_12:
  "gmi_setup (Arr1 [13 / 12, - (13 / 12)]) (Arr1 [1, - 1]) 2 [- 1, 1] [0, 1] =
     Inr ([[1, - 1]], [[1, - 1]], [Fin (1 / 144)], [[0], [1]])"
  by (simp add: gmi_setup_def bpsk_bits [unfolded One_nat_def] upt_1 pnorm_pm1 pnorm_13_12 phase_pm1
      var_raw_13_12 Let_def)

lemma calcLLR_small_var:
  "calcLLR [1, - 1] (Fin (1 / 144)) [- 1, 1] [[0], [1]] = Inr [Fin (- 576), Fin 576]"
  by (simp add: calcLLR_def int_log2_def ilog2.simps upt_rec column_def mask_select_def
      np_sum_def np_sub_def np_log_Fin)

lemma mode_LLRs_13_12:
  "gmi_mode_LLRs (Arr1 [13 / 12, - (13 / 12)]) (Arr1 [1, - 1]) 2 [- 1, 1] [0, 1] 0 =
     Inr [Fin (- 576), Fin 576]"
  by (simp add: gmi_mode_LLRs_def setup_13_12 bpsk_Es gmi_LLRs_def bpsk_norm calcLLR_small_var
      clipLLR_def)

text \<open>Received symbols equal to the transmitted ones: the noise variance is zero.\<close>

lemma setup_equal:
  "gmi_setup (Arr1 [1, - 1]) (Arr1 [1, - 1]) 2 [- 1, 1] [0, 1] =
     Inr ([[1, - 1]], [[1, - 1]], [Fin 0], [[0], [1]])"
  by (simp add: gmi_setup_def bpsk_bits [unfolded One_nat_def] upt_1 pnorm_pm1 phase_pm1
      var_aligned Let_def)

lemma calcLLR_zero_var:
  "calcLLR [1, - 1] (Fin 0) [- 1, 1] [[0], [1]] = Inr [NaN, NaN]"
  by (simp add: calcLLR_def int_log2_def ilog2.simps upt_rec column_def mask_select_def
      np_sum_def np_sub_def np_log_Fin np_log_def)

lemma mode_LLRs_equal:
  "gmi_mode_LLRs (Arr1 [1, - 1]) (Arr1 [1, - 1]) 2 [- 1, 1] [0, 1] 0 = Inr [NaN, NaN]"
  by (simp add: gmi_mode_LLRs_def setup_equal bpsk_Es gmi_LLRs_def bpsk_norm calcLLR_zero_var
      clipLLR_def)

lemma upt_2: "[0..<2] = [0, 1]" by (simp add: upt_rec)

lemma mode_13_12:
  "gmi_mode [[1, - 1]] [[1, - 1]] [Fin (1 / 144)] (Fin 1) [- 1, 1] [[0], [1]] 2 0 =
     Inr [Fin (1 - log 2 (1 + exp (- 576)))]"
proof -
  have L: "gmi_LLRs [1, - 1] (Fin (1 / 144)) [- 1, 1] (Fin 1) [[0], [1]] = Inr [Fin (- 576), Fin 576]"
    by (simp add: gmi_LLRs_def bpsk_norm calcLLR_small_var clipLLR_def)
  show ?thesis
    by (simp add: gmi_mode_def bpsk_scale bpsk_hd L bpsk_bits upt_1 strided_pair
        np_log2_one_plus_exp np_mean_def np_sum_def np_sub_def)
qed

lemma monteCarloGMI_13_12:
  "monteCarloGMI (Arr1 [13 / 12, - (13 / 12)]) (Arr1 [1, - 1]) 2 [- 1, 1] [0, 1] =
     Inr ([Fin (1 - log 2 (1 + exp (- 576)))], [Fin (1 - log 2 (1 + exp (- 576)))])"
  by (simp add: monteCarloGMI_via_setup setup_13_12 bpsk_Es upt_1 mode_13_12 np_sum_def)

lemma mode_equal:
  "gmi_mode [[1, - 1]] [[1, - 1]] [Fin 0] (Fin 1) [- 1, 1] [[0], [1]] 2 0 = Inr [NaN]"
proof -
  have L: "gmi_LLRs [1, - 1] (Fin 0) [- 1, 1] (Fin 1) [[0], [1]] = Inr [NaN, NaN]"
    by (simp add: gmi_LLRs_def bpsk_norm calcLLR_zero_var clipLLR_def)
  show ?thesis
    by (simp add: gmi_mode_def bpsk_scale bpsk_hd L bpsk_bits upt_1 strided_pair
        np_log2_def np_mean_def np_sum_def np_sub_def)
qed

lemma monteCarloGMI_equal:
  "monteCarloGMI (Arr1 [1, - 1]) (Arr1 [1, - 1]) 2 [- 1, 1] [0, 1] = Inr ([NaN], [NaN])"
  by (simp add: monteCarloGMI_via_setup setup_equal bpsk_Es upt_1 mode_equal np_sum_def)

text \<open>Two modes: the first received twice as large, the second received as transmitted.\<close>

lemma two_modes_columns:
  "as_columns (Arr2 [[2, 1], [- 2, - 1]]) = [[2, - 2], [1, - 1]]"
  "as_columns (Arr2 [[1, 1], [- 1, - 1]]) = [[1, - 1], [1, - 1]]"
  by (simp_all add: columns_def upt_rec)

lemma two_modes_var: "var_axis0 [[2, - 2], [1, - 1]] [[1, - 1], [1, - 1]] = [Fin 1, Fin 0]"
  by (simp add: var_axis0_def np_var_def cmean_def np_mean_def np_sum_def)

lemma two_modes_setup:
  "gmi_setup (Arr2 [[2, 1], [- 2, - 1]]) (Arr2 [[1, 1], [- 1, - 1]]) 2 [- 1, 1] [0, 1] =
     Inr ([[1, - 1], [1, - 1]], [[1, - 1], [1, - 1]], [Fin 1, Fin 0], [[0], [1]])"
  unfolding gmi_setup_def two_modes_columns
  by (simp add: bpsk_bits [unfolded One_nat_def] upt_2 pnorm_pm1 pnorm_pm2 phase_pm1
      two_modes_var Let_def)

lemma two_modes_mode0:
  "gmi_mode [[1, - 1], [1, - 1]] [[1, - 1], [1, - 1]] [Fin 1, Fin 0] (Fin 1) [- 1, 1] [[0], [1]] 2 0 =
     Inr [Fin (1 - log 2 (1 + exp (- 4)))]"
  using mode_pm2 by (simp add: gmi_mode_def)

lemma two_modes_mode1:
  "gmi_mode [[1, - 1], [1, - 1]] [[1, - 1], [1, - 1]] [Fin 1, Fin 0] (Fin 1) [- 1, 1] [[0], [1]] 2 1 =
     Inr [NaN]"
  using mode_equal by (simp add: gmi_mode_def)

lemma two_modes_monteCarloGMI:
  "monteCarloGMI (Arr2 [[2, 1], [- 2, - 1]]) (Arr2 [[1, 1], [- 1, - 1]]) 2 [- 1, 1] [0, 1] =
     Inr ([Fin (1 - log 2 (1 + exp (- 4))), NaN], [NaN])"
  unfolding monteCarloGMI_via_setup two_modes_setup two_modes_columns
  by (simp add: bpsk_Es upt_2 two_modes_mode0 two_modes_mode1 [unfolded One_nat_def] np_sum_def)

section \<open>Claims\<close>






text \<open>
  C9. The clipping step of \<open>monteCarloGMI\<close> keeps the length of the LLR sequence and
  changes only entries equal to \<open>+inf\<close> (to 500) or \<open>-inf\<close> (to -500); every other
  entry, a finite value of any magnitude or NaN, is left as it is.
\<close>

theorem clipLLR_changes_only_infinities:
  "length (clipLLR LLRs) = length LLRs
   \<and> (\<forall>i < length LLRs.
         (LLRs ! i = PInf \<longrightarrow> clipLLR LLRs ! i = Fin 500)
       \<and> (LLRs ! i = NInf \<longrightarrow> clipLLR LLRs ! i = Fin (- 500))
       \<and> (LLRs ! i \<noteq> PInf \<and> LLRs ! i \<noteq> NInf \<longrightarrow> clipLLR LLRs ! i = LLRs ! i))"
  by (simp add: clipLLR_def)

theorem clipLLR_changes_only_infinities_witness:
  "clipLLR [PInf, NInf, Fin 600, NaN, Fin (- 3)] = [Fin 500, Fin (- 500), Fin 600, NaN, Fin (- 3)]
   \<and> length (clipLLR [PInf, NInf, Fin 600, NaN, Fin (- 3)]) = 5"
proof -
  let ?L = "[PInf, NInf, Fin 600, NaN, Fin (- 3)]"
  have *: "\<forall>i < length ?L.
         (?L ! i = PInf \<longrightarrow> clipLLR ?L ! i = Fin 500)
       \<and> (?L ! i = NInf \<longrightarrow> clipLLR ?L ! i = Fin (- 500))
       \<and> (?L ! i \<noteq> PInf \<and> ?L ! i \<noteq> NInf \<longrightarrow> clipLLR ?L ! i = ?L ! i)"
    and len: "length (clipLLR ?L) = length ?L"
    using clipLLR_changes_only_infinities [of ?L] by blast+
  have "clipLLR ?L ! 0 = Fin 500" "clipLLR ?L ! 1 = Fin (- 500)" "clipLLR ?L ! 2 = Fin 600"
    "clipLLR ?L ! 3 = NaN" "clipLLR ?L ! 4 = Fin (- 3)"
    using * by (simp_all add: clipLLR_def)
  then show ?thesis by (simp add: clipLLR_def)
qed









text \<open>
  C1. The claim is that the noise variance of mode \<open>k\<close> is the sample variance of
  \<open>rx[:, k] - tx[:, k]\<close> after normalisation and phase correction. The code computes
  \<open>noiseVar\<close> before its normalisation loop. With \<open>rx = [2, -2]\<close> and
  \<open>tx = [1, -1]\<close> the variance in use is 1, while the aligned sequences coincide and
  have variance 0; the returned GMI is the finite value that the variance 1 gives.
\<close>

theorem monteCarloGMI_noise_variance_before_alignment:
  "gmi_setup (Arr1 [2, - 2]) (Arr1 [1, - 1]) 2 [- 1, 1] [0, 1] =
     Inr ([[1, - 1]], [[1, - 1]], [Fin 1], [[0], [1]])
   \<and> var_axis0 [[1, - 1]] [[1, - 1]] = [Fin 0]
   \<and> gmi_mode_LLRs (Arr1 [2, - 2]) (Arr1 [1, - 1]) 2 [- 1, 1] [0, 1] 0 = Inr [Fin (- 4), Fin 4]
   \<and> monteCarloGMI (Arr1 [2, - 2]) (Arr1 [1, - 1]) 2 [- 1, 1] [0, 1] =
     Inr ([Fin (1 - log 2 (1 + exp (- 4)))], [Fin (1 - log 2 (1 + exp (- 4)))])"
proof (intro conjI)
  show "gmi_mode_LLRs (Arr1 [2, - 2]) (Arr1 [1, - 1]) 2 [- 1, 1] [0, 1] 0 = Inr [Fin (- 4), Fin 4]"
    by (simp add: gmi_mode_LLRs_def setup_pm2 bpsk_Es LLRs_pm2)
qed (rule setup_pm2 var_aligned monteCarloGMI_pm2)+

text \<open>
  C2 (as amended). After the clipping step no LLR value that \<open>monteCarloGMI\<close> uses for
  the mutual information of a mode is \<open>+inf\<close> or \<open>-inf\<close>: each value is finite or NaN.
\<close>

theorem gmi_LLRs_never_infinite:
  assumes "gmi_mode_LLRs rx tx M constSymb bits k = Inr LLRs"
  shows "\<forall>v \<in> set LLRs. v \<noteq> PInf \<and> v \<noteq> NInf"
proof -
  from assms obtain rx' tx' noiseVar bitMap where
    "gmi_LLRs (rx' ! k) (noiseVar ! k) constSymb (mean_energy constSymb) bitMap = Inr LLRs"
    unfolding gmi_mode_LLRs_def bind_eq_Inr by (auto split: prod.splits)
  then obtain raw where "LLRs = clipLLR raw" using gmi_LLRs_clipped by blast
  then show ?thesis using clipLLR_finite_or_nan by blast
qed

theorem gmi_LLRs_never_infinite_witness:
  "gmi_mode_LLRs (Arr1 [13 / 12, - (13 / 12)]) (Arr1 [1, - 1]) 2 [- 1, 1] [0, 1] 0 =
     Inr [Fin (- 576), Fin 576]
   \<and> list_all (\<lambda>v. v \<noteq> PInf \<and> v \<noteq> NInf) [Fin (- 576), Fin 576]"
proof -
  have h: "gmi_mode_LLRs (Arr1 [13 / 12, - (13 / 12)]) (Arr1 [1, - 1]) 2 [- 1, 1] [0, 1] 0 =
     Inr [Fin (- 576), Fin 576]"
    by (rule mode_LLRs_13_12)
  show ?thesis
    using h gmi_LLRs_never_infinite [OF h] by (simp add: list_all_iff)
qed

text \<open>
  C2 as stated, every such value finite with absolute value at most 500, fails:
  a noise variance of \<open>1 / 144\<close> gives the finite LLRs \<open>-576\<close> and \<open>576\<close>, which the
  clipping leaves alone, and a noise variance of zero gives NaN. Both runs return.
\<close>

theorem clipped_LLR_bound_counterexample:
  "gmi_mode_LLRs (Arr1 [13 / 12, - (13 / 12)]) (Arr1 [1, - 1]) 2 [- 1, 1] [0, 1] 0 =
     Inr [Fin (- 576), Fin 576]
   \<and> \<not> list_all within_clip [Fin (- 576), Fin 576]
   \<and> monteCarloGMI (Arr1 [13 / 12, - (13 / 12)]) (Arr1 [1, - 1]) 2 [- 1, 1] [0, 1] =
     Inr ([Fin (1 - log 2 (1 + exp (- 576)))], [Fin (1 - log 2 (1 + exp (- 576)))])
   \<and> gmi_mode_LLRs (Arr1 [1, - 1]) (Arr1 [1, - 1]) 2 [- 1, 1] [0, 1] 0 = Inr [NaN, NaN]
   \<and> \<not> list_all within_clip [NaN, NaN]
   \<and> monteCarloGMI (Arr1 [1, - 1]) (Arr1 [1, - 1]) 2 [- 1, 1] [0, 1] = Inr ([NaN], [NaN])"
proof (intro conjI)
  show "\<not> list_all within_clip [Fin (- 576), Fin 576]" by (simp add: within_clip_def)
  show "\<not> list_all within_clip [NaN, NaN]" by (simp add: within_clip_def)
qed (rule mode_LLRs_13_12 monteCarloGMI_13_12 mode_LLRs_equal monteCarloGMI_equal)+

text \<open>
  C6. On well-formed arguments with at least one mode \<open>monteCarloGMI\<close> returns. Whenever
  it returns, there is at least one mode, the GMI array has one value per mode, each the
  sum of the per-bit-position array of its mode, and the second result is the
  per-bit-position array of the last mode only, of length \<open>b = int(log2(M))\<close>.
\<close>

theorem monteCarloGMI_last_mode_MI:
  "(well_formed rx tx M constSymb bits b' \<and> 0 < length (as_columns tx) \<longrightarrow>
      (\<exists>GMI MI. monteCarloGMI rx tx M constSymb bits = Inr (GMI, MI)))
   \<and> (monteCarloGMI rx tx M constSymb bits = Inr (GMI, MIperBitPosition) \<longrightarrow>
         0 < length (as_columns tx) \<and> length GMI = length (as_columns tx)
         \<and> (\<exists>rx' tx' noiseVar bitMap b.
               gmi_setup rx tx M constSymb bits = Inr (rx', tx', noiseVar, bitMap)
             \<and> int_log2 M = Inr b \<and> length MIperBitPosition = b
             \<and> gmi_mode rx' tx' noiseVar (mean_energy constSymb) constSymb bitMap M
                  (length (as_columns tx) - 1) = Inr MIperBitPosition
             \<and> (\<forall>k < length (as_columns tx). \<exists>MI.
                   gmi_mode rx' tx' noiseVar (mean_energy constSymb) constSymb bitMap M k = Inr MI
                   \<and> GMI ! k = np_sum MI)))"
proof (rule conjI; rule impI)
  assume "well_formed rx tx M constSymb bits b' \<and> 0 < length (as_columns tx)"
  then show "\<exists>GMI MI. monteCarloGMI rx tx M constSymb bits = Inr (GMI, MI)"
    using monteCarloGMI_returns by blast
next
  assume r: "monteCarloGMI rx tx M constSymb bits = Inr (GMI, MIperBitPosition)"
  show "0 < length (as_columns tx) \<and> length GMI = length (as_columns tx)
         \<and> (\<exists>rx' tx' noiseVar bitMap b.
               gmi_setup rx tx M constSymb bits = Inr (rx', tx', noiseVar, bitMap)
             \<and> int_log2 M = Inr b \<and> length MIperBitPosition = b
             \<and> gmi_mode rx' tx' noiseVar (mean_energy constSymb) constSymb bitMap M
                  (length (as_columns tx) - 1) = Inr MIperBitPosition
             \<and> (\<forall>k < length (as_columns tx). \<exists>MI.
                   gmi_mode rx' tx' noiseVar (mean_energy constSymb) constSymb bitMap M k = Inr MI
                   \<and> GMI ! k = np_sum MI))"
    by (rule monteCarloGMI_result [OF r])
qed

theorem monteCarloGMI_last_mode_MI_witness:
  "well_formed (Arr2 [[2, 1], [- 2, - 1]]) (Arr2 [[1, 1], [- 1, - 1]]) 2 [- 1, 1] [0, 1] 1
   \<and> monteCarloGMI (Arr2 [[2, 1], [- 2, - 1]]) (Arr2 [[1, 1], [- 1, - 1]]) 2 [- 1, 1] [0, 1] =
     Inr ([Fin (1 - log 2 (1 + exp (- 4))), NaN], [NaN])
   \<and> (\<exists>GMI MI. monteCarloGMI (Arr2 [[2, 1], [- 2, - 1]]) (Arr2 [[1, 1], [- 1, - 1]]) 2 [- 1, 1] [0, 1] = Inr (GMI, MI))
   \<and> 0 < length (as_columns (Arr2 [[1, 1], [- 1, - 1]])) \<and> length [Fin (1 - log 2 (1 + exp (- 4))), NaN] = length (as_columns (Arr2 [[1, 1], [- 1, - 1]]))
         \<and> (\<exists>rx' tx' noiseVar bitMap b.
               gmi_setup (Arr2 [[2, 1], [- 2, - 1]]) (Arr2 [[1, 1], [- 1, - 1]]) 2 [- 1, 1] [0, 1] = Inr (rx', tx', noiseVar, bitMap)
             \<and> int_log2 2 = Inr b \<and> length [NaN] = b
             \<and> gmi_mode rx' tx' noiseVar (mean_energy [- 1, 1]) [- 1, 1] bitMap 2
                  (length (as_columns (Arr2 [[1, 1], [- 1, - 1]])) - 1) = Inr [NaN]
             \<and> (\<forall>k < length (as_columns (Arr2 [[1, 1], [- 1, - 1]])). \<exists>MI.
                   gmi_mode rx' tx' noiseVar (mean_energy [- 1, 1]) [- 1, 1] bitMap 2 k = Inr MI
                   \<and> [Fin (1 - log 2 (1 + exp (- 4))), NaN] ! k = np_sum MI))"
proof -
  have wf: "well_formed (Arr2 [[2, 1], [- 2, - 1]]) (Arr2 [[1, 1], [- 1, - 1]]) 2 [- 1, 1] [0, 1] 1"
    unfolding well_formed_def two_modes_columns
    by (simp add: upt_2 conditionable_def)
  have n: "0 < length (as_columns (Arr2 [[1, 1], [- 1, - 1]]))"
    unfolding two_modes_columns by simp
  have h: "monteCarloGMI (Arr2 [[2, 1], [- 2, - 1]]) (Arr2 [[1, 1], [- 1, - 1]]) 2 [- 1, 1] [0, 1] =
     Inr ([Fin (1 - log 2 (1 + exp (- 4))), NaN], [NaN])"
    by (rule two_modes_monteCarloGMI)
  note t = monteCarloGMI_last_mode_MI [of "Arr2 [[2, 1], [- 2, - 1]]" "Arr2 [[1, 1], [- 1, - 1]]" 2
      "[- 1, 1]" "[0, 1]" 1 "[Fin (1 - log 2 (1 + exp (- 4))), NaN]" "[NaN]"]
  have t1: "\<exists>GMI MI. monteCarloGMI (Arr2 [[2, 1], [- 2, - 1]]) (Arr2 [[1, 1], [- 1, - 1]]) 2 [- 1, 1] [0, 1] = Inr (GMI, MI)"
    using t wf n by blast
  have t2: "0 < length (as_columns (Arr2 [[1, 1], [- 1, - 1]])) \<and> length [Fin (1 - log 2 (1 + exp (- 4))), NaN] = length (as_columns (Arr2 [[1, 1], [- 1, - 1]]))
         \<and> (\<exists>rx' tx' noiseVar bitMap b.
               gmi_setup (Arr2 [[2, 1], [- 2, - 1]]) (Arr2 [[1, 1], [- 1, - 1]]) 2 [- 1, 1] [0, 1] = Inr (rx', tx', noiseVar, bitMap)
             \<and> int_log2 2 = Inr b \<and> length [NaN] = b
             \<and> gmi_mode rx' tx' noiseVar (mean_energy [- 1, 1]) [- 1, 1] bitMap 2
                  (length (as_columns (Arr2 [[1, 1], [- 1, - 1]])) - 1) = Inr [NaN]
             \<and> (\<forall>k < length (as_columns (Arr2 [[1, 1], [- 1, - 1]])). \<exists>MI.
                   gmi_mode rx' tx' noiseVar (mean_energy [- 1, 1]) [- 1, 1] bitMap 2 k = Inr MI
                   \<and> [Fin (1 - log 2 (1 + exp (- 4))), NaN] ! k = np_sum MI))"
    using t h by blast
  show ?thesis
    by (intro conjI) (rule wf h t1 t2 [THEN conjunct1] t2 [THEN conjunct2, THEN conjunct1]
        t2 [THEN conjunct2, THEN conjunct2])+
qed

end
